theory Spec2Isabelle
  imports Main "HOL-Library.Word" "HOL-Library.AList" "HOL-Library.Multiset"
begin

section \<open>Values held in Go's \<open>any\<close>\<close>

text \<open>
  The runbook code inspects decoded YAML values by their dynamic type. Each dynamic type
  that \<open>normalize\<close> tells apart is a constructor of \<open>val\<close>; a value of any other
  dynamic type (float64, \<open>map[string]string\<close>, a named slice type ...) is \<open>VOther\<close> with
  the name of its type and the data it holds, which the code passes through. A nil slice
  and an empty slice are the same list.

  Go's \<open>int\<close> is taken as 64 bits wide (amd64, arm64), so the conversions \<open>int64(v)\<close> and
  \<open>uint64(v)\<close> keep the bit pattern.

  A Go map is the list of its entries in the order a \<open>range\<close> statement visits them
  (an order the language leaves open); \<open>map_of\<close> of the list is the mapping. A map the
  code builds is filled by \<open>AList.update\<close>, as \<open>m[k] = v\<close> does: a key already there
  keeps its place and gets the new value.
\<close>

datatype val =
    VNil
  | VBool bool
  | VInt "64 word"
  | VInt64 "64 word"
  | VUint64 "64 word"
  | VString string
  | VSlice "val list"
  | VMapAny "(val \<times> val) list"
  | VMapStr "(string \<times> val) list"
  | VMapStrs "(string \<times> val) list list"
  | VMapSlice "(val \<times> val) list"
  | VError string
  | VOther string val

type_synonym strmap = "(string \<times> val) list"
type_synonym MapSlice = "(val \<times> val) list"

subsection \<open>Strings and decimal numbers\<close>

definition HasPrefix :: "string \<Rightarrow> string \<Rightarrow> bool" where
  "HasPrefix s p = (take (length p) s = p)"

definition digit_char :: "nat \<Rightarrow> char" where
  "digit_char n = ''0123456789'' ! (n mod 10)"

fun dec_nat :: "nat \<Rightarrow> string" where
  "dec_nat n = (if n < 10 then [digit_char n] else dec_nat (n div 10) @ [digit_char (n mod 10)])"

declare dec_nat.simps [simp del]

definition Itoa :: "int \<Rightarrow> string" where
  "Itoa i = (if i < 0 then CHR ''-'' # dec_nat (nat (- i)) else dec_nat (nat i))"

section \<open>normalize\<close>

text \<open>
  \<open>fmt.Sprintf("%v", k)\<close> belongs to Go's library; it is the parameter \<open>fmtv\<close> of
  every function that formats a value.
\<close>

fun as_maps :: "(val \<times> val) list \<Rightarrow> val + strmap list" where
  "as_maps [] = Inr []"
| "as_maps ((vv, n) # rest) =
     (case n of
        VMapStr m \<Rightarrow> (case as_maps rest of Inl bad \<Rightarrow> Inl bad | Inr ms \<Rightarrow> Inr (m # ms))
      | _ \<Rightarrow> Inl vv)"

definition put_all :: "(string \<times> val) list \<Rightarrow> strmap" where
  "put_all kvs = fold (\<lambda>(k, v) res. AList.update k v res) kvs []"

lemma size_list_member_less: "x \<in> set xs \<Longrightarrow> Suc (f x) \<le> size_list f xs"
  by (induction xs) auto

lemma size_list_snd_member_le: "(a, b) \<in> set kvs \<Longrightarrow> g b \<le> size_list (size_prod f g) kvs"
  by (induction kvs) auto

function (sequential) normalize :: "(val \<Rightarrow> string) \<Rightarrow> val \<Rightarrow> val" where
  "normalize fmtv (VSlice vs) = VSlice (map (normalize fmtv) vs)"
| "normalize fmtv (VMapAny kvs) =
     VMapStr (put_all (map (\<lambda>(k, vv). (fmtv k, normalize fmtv vv)) kvs))"
| "normalize fmtv (VMapStr kvs) =
     VMapStr (put_all (map (\<lambda>(k, vv). (k, normalize fmtv vv)) kvs))"
| "normalize fmtv (VMapStrs ms) =
     (case as_maps (map (\<lambda>vv. (VMapStr vv, normalize fmtv (VMapStr vv))) ms) of
        Inr res \<Rightarrow> VMapStrs res
      | Inl vv \<Rightarrow> VError (''failed to normalize: '' @ fmtv vv))"
| "normalize fmtv (VMapSlice items) =
     VMapStr (put_all (map (\<lambda>(k, vv). (fmtv k, normalize fmtv vv)) items))"
| "normalize fmtv (VInt v) = (if v <s 0 then VInt64 v else VUint64 v)"
| "normalize fmtv v = v"
  by pat_completeness auto
termination
  by (relation "measure (\<lambda>(fmtv, v). size v)")
    (auto simp: size_list_member_less size_list_snd_member_le less_Suc_eq_le intro: Suc_leD)

text \<open>
  An instance of \<open>fmtv\<close> for the scalars a YAML mapping key decodes to, used where a
  theorem is evaluated at a concrete input. It is not applied to any other value below.
\<close>

definition fmt_key :: "val \<Rightarrow> string" where
  "fmt_key k =
     (case k of
        VString s \<Rightarrow> s
      | VInt v \<Rightarrow> Itoa (sint v)
      | VInt64 v \<Rightarrow> Itoa (sint v)
      | VUint64 v \<Rightarrow> Itoa (uint v)
      | VBool b \<Rightarrow> (if b then ''true'' else ''false'')
      | VNil \<Rightarrow> ''<nil>''
      | VError m \<Rightarrow> m
      | _ \<Rightarrow> [])"

section \<open>The runbook and its compiled book\<close>

text \<open>
  \<open>Runners\<close> is \<open>None\<close> for Go's nil map: reading a nil map finds no entry, assigning
  to one panics. \<open>Vars\<close> is only read by the code below, so nil and empty coincide there.
  The field \<open>If\<close> of the source is \<open>IfCond\<close> here. \<open>Loop\<close> is \<open>VNil\<close> for a nil
  interface.
\<close>

record runbook =
  Desc :: string
  Runners :: "strmap option"
  Vars :: strmap
  Steps :: "MapSlice list"
  Debug :: bool
  Interval :: string
  IfCond :: string
  SkipTest :: bool
  Loop :: val
  Concurrency :: string
  Force :: bool
  useMap :: bool
  stepKeys :: "string list"

text \<open>The fields of \<open>book\<close> that \<open>toBook\<close> assigns; \<open>'l\<close> is the parsed loop.\<close>

record 'l book =
  bk_desc :: string
  bk_runners :: strmap
  bk_vars :: strmap
  bk_rawSteps :: "strmap list"
  bk_debug :: bool
  bk_intervalStr :: string
  bk_ifCond :: string
  bk_skipTest :: bool
  bk_force :: bool
  bk_loop :: "'l option"
  bk_concurrency :: string
  bk_useMap :: bool
  bk_stepKeys :: "string list"

datatype panic = NilMapAssignment | IndexOutOfRange | NilDereference

text \<open>
  Errors the code returns. \<open>External\<close> wraps an error handed back by a collaborator
  that is not part of this file (a parser, \<open>newLoop\<close>, ...), returned as it is.
\<close>

datatype error =
    FailedNormalizeRunners strmap
  | FailedNormalizeVars strmap
  | FailedNormalizeStep MapSlice
  | NoArgument
  | UnsupportedGrpcurl "string list"
  | FailedParseMappedSteps "val \<times> val"
  | DuplicateStepKeys string
  | InvalidRunbook
  | StepNotFound int
  | LineNotFound int
  | External string

definition NewRunbook :: "string \<Rightarrow> runbook" where
  "NewRunbook desc =
     \<lparr>Desc = (if desc = [] then ''Generated by `runn new`'' else desc),
      Runners = Some [], Vars = [], Steps = [], Debug = False, Interval = [], IfCond = [],
      SkipTest = False, Loop = VNil, Concurrency = [], Force = False,
      useMap = False, stepKeys = []\<rparr>"

subsection \<open>setRunner\<close>

fun scanRunners :: "string \<Rightarrow> strmap \<Rightarrow> int \<Rightarrow> int \<Rightarrow> int \<Rightarrow> string + (int \<times> int \<times> int)" where
  "scanRunners dsn [] hc gc dc = Inr (hc, gc, dc)"
| "scanRunners dsn ((k, v) # rest) hc gc dc =
     (case v of
        VString vv \<Rightarrow>
          if vv = dsn then Inl k
          else if HasPrefix vv ''http'' then scanRunners dsn rest (hc + 1) gc dc
          else if HasPrefix vv ''grpc'' then scanRunners dsn rest hc (gc + 1) dc
          else scanRunners dsn rest hc gc (dc + 1)
      | _ \<Rightarrow> scanRunners dsn rest hc gc dc)"

definition range_of :: "strmap option \<Rightarrow> strmap" where
  "range_of m = (case m of None \<Rightarrow> [] | Some kvs \<Rightarrow> kvs)"

definition setRunner :: "runbook \<Rightarrow> string \<Rightarrow> panic + (string \<times> runbook)" where
  "setRunner rb dsn =
     (case scanRunners dsn (range_of (Runners rb)) 0 0 0 of
        Inl k \<Rightarrow> Inr (k, rb)
      | Inr (hc, gc, dc) \<Rightarrow>
          (let key =
             (if HasPrefix dsn ''http'' then
                (if hc > 0 then ''req'' @ Itoa (hc + 1) else ''req'')
              else if HasPrefix dsn ''grpc'' then
                (if gc > 0 then ''greq'' @ Itoa (gc + 1) else ''greq'')
              else
                (if dc > 0 then ''db'' @ Itoa (dc + 1) else ''db''))
           in case Runners rb of
                None \<Rightarrow> Inl NilMapAssignment
              | Some rs \<Rightarrow> Inr (key, rb\<lparr>Runners := Some (AList.update key (VString dsn) rs)\<rparr>)))"

subsection \<open>toBook\<close>

fun normalize_steps :: "(val \<Rightarrow> string) \<Rightarrow> MapSlice list \<Rightarrow> error + strmap list" where
  "normalize_steps fmtv [] = Inr []"
| "normalize_steps fmtv (s # ss) =
     (case normalize fmtv (VMapSlice s) of
        VMapStr v \<Rightarrow>
          (case normalize_steps fmtv ss of Inl e \<Rightarrow> Inl e | Inr vs \<Rightarrow> Inr (v # vs))
      | _ \<Rightarrow> Inl (FailedNormalizeStep s))"

text \<open>
  \<open>newLoop\<close> is not part of the source file; it is a parameter that parses the loop
  field or fails with a message.
\<close>

definition toBook ::
  "(val \<Rightarrow> string) \<Rightarrow> (val \<Rightarrow> string + 'l) \<Rightarrow> runbook \<Rightarrow> error + 'l book" where
  "toBook fmtv newLoop rb =
     (case normalize fmtv (VMapStr (range_of (Runners rb))) of
        VMapStr rs \<Rightarrow>
          (case normalize fmtv (VMapStr (Vars rb)) of
             VMapStr vs \<Rightarrow>
               (case normalize_steps fmtv (Steps rb) of
                  Inl e \<Rightarrow> Inl e
                | Inr raw \<Rightarrow>
                    (let bk = \<lparr>bk_desc = Desc rb, bk_runners = rs, bk_vars = vs,
                               bk_rawSteps = raw, bk_debug = Debug rb,
                               bk_intervalStr = Interval rb, bk_ifCond = IfCond rb,
                               bk_skipTest = SkipTest rb, bk_force = Force rb,
                               bk_loop = None, bk_concurrency = Concurrency rb,
                               bk_useMap = useMap rb, bk_stepKeys = stepKeys rb\<rparr>
                     in if Loop rb \<noteq> VNil then
                          (case newLoop (Loop rb) of
                             Inl e \<Rightarrow> Inl (External e)
                           | Inr l \<Rightarrow> Inr (bk\<lparr>bk_loop := Some l\<rparr>))
                        else Inr bk))
           | _ \<Rightarrow> Inl (FailedNormalizeVars (Vars rb)))
      | _ \<Rightarrow> Inl (FailedNormalizeRunners (range_of (Runners rb))))"

section \<open>Synthesizing steps\<close>

subsection \<open>Library functions on strings\<close>

definition newline :: char where
  "newline = CHR 0x0A"

definition TrimSuffix :: "string \<Rightarrow> string \<Rightarrow> string" where
  "TrimSuffix s suffix =
     (if length suffix \<le> length s \<and> drop (length s - length suffix) s = suffix
      then take (length s - length suffix) s else s)"

definition Contains :: "string \<Rightarrow> char \<Rightarrow> bool" where
  "Contains s c = (c \<in> set s)"

fun Join :: "string list \<Rightarrow> string \<Rightarrow> string" where
  "Join [] sep = []"
| "Join [x] sep = x"
| "Join (x # y # ys) sep = x @ sep @ Join (y # ys) sep"

text \<open>
  \<open>strings.Split\<close> for a separator that is not empty: the pieces between the
  occurrences of the separator, found from the left. \<open>cur\<close> is the piece being read,
  reversed.
\<close>

function split_from :: "string \<Rightarrow> string \<Rightarrow> string \<Rightarrow> string list" where
  "split_from cur s sep =
     (if s = [] then [rev cur]
      else if sep \<noteq> [] \<and> HasPrefix s sep then rev cur # split_from [] (drop (length sep) s) sep
      else split_from (hd s # cur) (tl s) sep)"
  by pat_completeness auto
termination
  by (relation "measure (\<lambda>(cur, s, sep). length s)") auto

declare split_from.simps [simp del]

subsection \<open>Collaborators\<close>

text \<open>
  The parsers and formatters the synthesizer calls are not part of the source file; they
  are the fields of \<open>env\<close>. Each returns its result or the message of the error it
  reports. \<open>explode s\<close> is \<open>strings.Split(s, "")\<close>, the UTF-8 sequences of \<open>s\<close>;
  \<open>quote\<close> is \<open>fmt.Sprintf("%#v", s)\<close> on a string.
  \<open>CreateHTTPStepMapSlice\<close> belongs to the repository but is not in the source file.
\<close>

record request =
  Method :: string
  URL :: string
  Host :: string
  Header :: "(string \<times> string) list"

record Parsed =
  Addr :: string
  SubCmd :: string
  GrpcMethod :: string
  Headers :: "(string \<times> string list) list"
  Messages :: "val list"

record Log =
  LogMethod :: string
  RequestURI :: string
  UserAgent :: string

record runbookMapped =
  m_Desc :: string
  m_Runners :: "strmap option"
  m_Vars :: strmap
  m_Steps :: MapSlice
  m_Debug :: bool
  m_Interval :: string
  m_If :: string
  m_SkipTest :: bool
  m_Loop :: val
  m_Concurrency :: string
  m_Force :: bool

record env =
  quote :: "string \<Rightarrow> string"
  explode :: "string \<Rightarrow> string list"
  curl_NewRequest :: "string list \<Rightarrow> string + request"
  CreateHTTPStepMapSlice :: "string \<Rightarrow> request \<Rightarrow> string + MapSlice"
  grpcurl_Parse :: "string list \<Rightarrow> string + Parsed"
  GuessParser :: "string \<Rightarrow> string + Log"
  http_NewRequest :: "string \<Rightarrow> string \<Rightarrow> string + request"
  Unmarshal_mapped :: "string \<Rightarrow> string + runbookMapped"

definition Split :: "('z env_scheme) \<Rightarrow> string \<Rightarrow> string \<Rightarrow> string list" where
  "Split ev s sep = (if sep = [] then explode ev s else split_from [] s sep)"

subsection \<open>AppendStep and the four captures\<close>

text \<open>
  A method that mutates the runbook returns the runbook as it leaves it, with the error
  it returns (\<open>None\<close> for nil), or the panic that aborts it.
\<close>

type_synonym step_result = "panic + (error option \<times> runbook)"

definition curlToStep :: "('z env_scheme) \<Rightarrow> runbook \<Rightarrow> string list \<Rightarrow> step_result" where
  "curlToStep ev rb ins =
     (case curl_NewRequest ev ins of
        Inl e \<Rightarrow> Inr (Some (External e), rb)
      | Inr req \<Rightarrow>
          (case Split ev (URL req) (Host req) of
             [] \<Rightarrow> Inl IndexOutOfRange
           | s0 # _ \<Rightarrow>
               (case setRunner rb (s0 @ Host req) of
                  Inl p \<Rightarrow> Inl p
                | Inr (key, rb1) \<Rightarrow>
                    (case CreateHTTPStepMapSlice ev key req of
                       Inl e \<Rightarrow> Inr (Some (External e), rb1)
                     | Inr step \<Rightarrow> Inr (None, rb1\<lparr>Steps := Steps rb1 @ [step]\<rparr>)))))"

fun first_values ::
  "(string \<times> string list) list \<Rightarrow> (string \<times> string) list \<Rightarrow> panic + (string \<times> string) list" where
  "first_values [] h = Inr h"
| "first_values ((k, v) # rest) h =
     (case v of
        [] \<Rightarrow> Inl IndexOutOfRange
      | v0 # _ \<Rightarrow> first_values rest (AList.update k v0 h))"

definition grpcurlToStep :: "('z env_scheme) \<Rightarrow> runbook \<Rightarrow> string list \<Rightarrow> step_result" where
  "grpcurlToStep ev rb ins =
     (case grpcurl_Parse ev ins of
        Inl e \<Rightarrow> Inr (Some (External e), rb)
      | Inr p \<Rightarrow>
          if Addr p = [] \<or> GrpcMethod p = [] \<or> SubCmd p \<noteq> [] then
            Inr (Some (UnsupportedGrpcurl ins), rb)
          else
            (case setRunner rb (''grpc://'' @ Addr p) of
               Inl pn \<Rightarrow> Inl pn
             | Inr (key, rb1) \<Rightarrow>
                 (case first_values (Headers p) [] of
                    Inl pn \<Rightarrow> Inl pn
                  | Inr h \<Rightarrow>
                      (let hm1 = (if length h > 0
                                  then [(VString ''headers'',
                                         VOther ''map[string]string''
                                           (VMapStr (map (\<lambda>(k, v). (k, VString v)) h)))]
                                  else []);
                           hm = (case Messages p of
                                   [] \<Rightarrow> hm1
                                 | [msg] \<Rightarrow> hm1 @ [(VString ''message'', msg)]
                                 | _ \<Rightarrow> hm1 @ [(VString ''messages'',
                                                  VOther ''Messages'' (VSlice (Messages p)))]);
                           step = [(VString key,
                                    VMapSlice [(VString (GrpcMethod p), VMapSlice hm)])]
                       in Inr (None, rb1\<lparr>Steps := Steps rb1 @ [step]\<rparr>)))))"

definition axsLogToStep :: "('z env_scheme) \<Rightarrow> runbook \<Rightarrow> string list \<Rightarrow> step_result" where
  "axsLogToStep ev rb ins =
     (case GuessParser ev (Join ins '' '') of
        Inl e \<Rightarrow> Inr (Some (External e), rb)
      | Inr l \<Rightarrow>
          (case setRunner rb ''https://dummy.example.com'' of
             Inl p \<Rightarrow> Inl p
           | Inr (key, rb1) \<Rightarrow>
               (case http_NewRequest ev (LogMethod l) (RequestURI l) of
                  Inl e \<Rightarrow> Inr (Some (External e), rb1)
                | Inr req0 \<Rightarrow>
                    (let req = (if UserAgent l \<noteq> []
                                then req0\<lparr>Header := Header req0 @ [(''User-Agent'', UserAgent l)]\<rparr>
                                else req0)
                     in case CreateHTTPStepMapSlice ev key req of
                          Inl e \<Rightarrow> Inr (Some (External e), rb1)
                        | Inr step \<Rightarrow> Inr (None, rb1\<lparr>Steps := Steps rb1 @ [step]\<rparr>)))))"

definition joinCommands :: "('z env_scheme) \<Rightarrow> string list \<Rightarrow> string" where
  "joinCommands ev ins =
     Join (map (\<lambda>i. let i' = TrimSuffix i [newline]
                     in if Contains i' CHR '' '' then quote ev i' else i') ins) '' ''
     @ [newline]"

text \<open>
  Modelled from the spec: the constant \<open>execRunnerKey\<close> is not in the source file; the
  spec gives the shell step as \<open>{exec: {command: <string>}}\<close>.
\<close>

definition execRunnerKey :: string where
  "execRunnerKey = ''exec''"

definition cmdToStep :: "('z env_scheme) \<Rightarrow> runbook \<Rightarrow> string list \<Rightarrow> step_result" where
  "cmdToStep ev rb ins =
     (let step = [(VString execRunnerKey,
                   VMapSlice [(VString ''command'', VString (joinCommands ev ins))])]
      in Inr (None, rb\<lparr>Steps := Steps rb @ [step]\<rparr>))"

definition AppendStep :: "('z env_scheme) \<Rightarrow> runbook \<Rightarrow> string list \<Rightarrow> step_result" where
  "AppendStep ev rb ins =
     (case ins of
        [] \<Rightarrow> Inr (Some NoArgument, rb)
      | in0 # _ \<Rightarrow>
          (let rb1 = (if useMap rb
                      then rb\<lparr>stepKeys := stepKeys rb @ [in0 @ Itoa (int (length (stepKeys rb)))]\<rparr>
                      else rb)
           in if HasPrefix in0 ''curl'' then curlToStep ev rb1 ins
              else if HasPrefix in0 ''grpcurl'' then grpcurlToStep ev rb1 ins
              else if length ins = 1 then
                (case axsLogToStep ev rb1 ins of
                   Inl p \<Rightarrow> Inl p
                 | Inr (None, rb2) \<Rightarrow> Inr (None, rb2)
                 | Inr (Some e, rb2) \<Rightarrow> cmdToStep ev rb2 ins)
              else cmdToStep ev rb1 ins))"

subsection \<open>Keyed documents\<close>

fun mapped_steps :: "MapSlice \<Rightarrow> string list \<Rightarrow> runbook \<Rightarrow> error option \<times> runbook" where
  "mapped_steps [] keys rb = (None, rb)"
| "mapped_steps ((k, v) # rest) keys rb =
     (case k of
        VString ks \<Rightarrow>
          (case v of
             VMapSlice vs \<Rightarrow>
               (let rb1 = rb\<lparr>stepKeys := stepKeys rb @ [ks], Steps := Steps rb @ [vs]\<rparr>
                in if ks \<in> set keys then (Some (DuplicateStepKeys ks), rb1)
                   else mapped_steps rest (ks # keys) rb1)
           | _ \<Rightarrow> (Some (FailedParseMappedSteps (k, v)), rb))
      | _ \<Rightarrow> (Some (FailedParseMappedSteps (k, v)), rb))"

definition parseRunbookMapped ::
  "('z env_scheme) \<Rightarrow> string \<Rightarrow> runbook \<Rightarrow> error option \<times> runbook" where
  "parseRunbookMapped ev b rb =
     (case Unmarshal_mapped ev b of
        Inl e \<Rightarrow> (Some (External e), rb)
      | Inr m \<Rightarrow>
          mapped_steps (m_Steps m) []
            (rb\<lparr>useMap := True, Desc := m_Desc m, Runners := m_Runners m, Vars := m_Vars m,
                Debug := m_Debug m, Interval := m_Interval m, IfCond := m_If m,
                SkipTest := m_SkipTest m, Force := m_Force m\<rparr>))"

text \<open>
  \<open>MarshalYAML\<close> hands the encoder the runbook itself, or its keyed form with one
  \<open>MapItem\<close> per step key; a keyed runbook whose keys and steps differ in number is
  refused as invalid.
\<close>

definition MarshalYAML :: "runbook \<Rightarrow> error + (runbook + runbookMapped)" where
  "MarshalYAML rb =
     (if \<not> useMap rb then Inr (Inl rb)
      else if length (stepKeys rb) \<noteq> length (Steps rb) then Inl InvalidRunbook
      else Inr (Inr \<lparr>m_Desc = Desc rb, m_Runners = Runners rb, m_Vars = Vars rb,
                     m_Steps = zip (map VString (stepKeys rb)) (map VMapSlice (Steps rb)),
                     m_Debug = Debug rb, m_Interval = Interval rb, m_If = IfCond rb,
                     m_SkipTest = SkipTest rb, m_Loop = VNil, m_Concurrency = [],
                     m_Force = Force rb\<rparr>))"

section \<open>Source positions\<close>

text \<open>
  The YAML lexer and parser belong to a library. The lexer's tokens form a chain linked by
  \<open>Prev\<close> and \<open>Next\<close>: the chain is the list of tokens, a pointer to a token is its
  index, \<open>Prev\<close> of index 0 and \<open>Next\<close> of the last index are nil. A node of the
  syntax tree carries the pointer that \<open>GetToken\<close> returns. Reading through a pointer
  that is nil (or not an index of the chain) is the panic \<open>NilDereference\<close>.

  The kinds of node the code tells apart are constructors; every other kind is
  \<open>OtherNode\<close> with the children \<open>ast.Walk\<close> visits. An entry of a \<open>MappingNode\<close> is
  a \<open>MappingValueNode\<close>: its token, key and value. The code calls the parser in mode 0,
  which attaches no comment to a node, so a node has no comment for \<open>ast.Walk\<close> to visit.
\<close>

record token =
  Value :: string
  Line :: int
  Column :: int

datatype node =
    StringNode nat string
  | MappingNode nat "(nat \<times> node \<times> node) list"
  | MappingValueNode nat node node
  | SequenceNode nat "node list"
  | OtherNode nat "node list"

record area =
  StartLine :: int
  EndLine :: int

record areas =
  a_Desc :: "area option"
  a_Runners :: "area option"
  a_Vars :: "area option"
  a_Steps :: "area list"

record areaDetector =
  d_start :: "nat option"
  d_end :: "nat option"

text \<open>
  \<open>Tokenize\<close> and \<open>Parse\<close> are the lexer and the parser (the bodies of the documents
  of the file, \<open>None\<close> for a document without one, or the parser's error);
  \<open>ReplaceYAML\<close> is the environment interpolation; \<open>yellow\<close> colours a string.
\<close>

record yaml_env =
  Tokenize :: "string \<Rightarrow> token list"
  Parse :: "token list \<Rightarrow> string + node option list"
  ReplaceYAML :: "string \<Rightarrow> string + string"
  yellow :: "string \<Rightarrow> string"

fun GetToken :: "node \<Rightarrow> nat" where
  "GetToken (StringNode t s) = t"
| "GetToken (MappingNode t vs) = t"
| "GetToken (MappingValueNode t k v) = t"
| "GetToken (SequenceNode t vs) = t"
| "GetToken (OtherNode t vs) = t"

definition tok :: "token list \<Rightarrow> nat \<Rightarrow> token option" where
  "tok toks i = (if i < length toks then Some (toks ! i) else None)"

text \<open>The tokens of the nodes \<open>ast.Walk\<close> visits, in its order: a node, then its children.\<close>

lemma size_list_triple_member:
  "(t, k, v) \<in> set vs \<Longrightarrow>
   f k \<le> size_list (size_prod g (size_prod f h)) vs \<and>
   h v \<le> size_list (size_prod g (size_prod f h)) vs"
  by (induction vs) auto

lemma size_list_member_le: "x \<in> set xs \<Longrightarrow> f x \<le> size_list f xs"
  using size_list_member_less [of x xs f] by simp

function visited :: "node \<Rightarrow> nat list" where
  "visited (StringNode t s) = [t]"
| "visited (MappingNode t vs) = t # concat (map (\<lambda>(t', k, v). t' # visited k @ visited v) vs)"
| "visited (MappingValueNode t k v) = t # visited k @ visited v"
| "visited (SequenceNode t vs) = t # concat (map visited vs)"
| "visited (OtherNode t vs) = t # concat (map visited vs)"
  by pat_completeness auto
termination
  by (relation "measure size")
    (auto simp: size_list_triple_member size_list_member_le less_Suc_eq_le)

definition later :: "token \<Rightarrow> token \<Rightarrow> bool" where
  "later a b = (Line a > Line b \<or> (Line a = Line b \<and> Column a > Column b))"

definition Visit :: "token list \<Rightarrow> areaDetector \<Rightarrow> nat \<Rightarrow> panic + areaDetector" where
  "Visit toks d t =
     (let d1 = (if d_start d = None then d\<lparr>d_start := Some t\<rparr> else d);
          d2 = (if d_end d1 = None then d1\<lparr>d_end := Some t\<rparr> else d1)
      in case (Option.bind (d_start d2) (tok toks), tok toks t) of
           (Some s, Some tk) \<Rightarrow>
             (let d3 = (if later s tk then d2\<lparr>d_start := Some t\<rparr> else d2)
              in case Option.bind (d_end d3) (tok toks) of
                   Some e \<Rightarrow> Inr (if later tk e then d3\<lparr>d_end := Some t\<rparr> else d3)
                 | None \<Rightarrow> Inl NilDereference)
         | _ \<Rightarrow> Inl NilDereference)"

fun Walk :: "token list \<Rightarrow> areaDetector \<Rightarrow> nat list \<Rightarrow> panic + areaDetector" where
  "Walk toks d [] = Inr d"
| "Walk toks d (t # ts) =
     (case Visit toks d t of Inl p \<Rightarrow> Inl p | Inr d' \<Rightarrow> Walk toks d' ts)"

definition Count :: "string \<Rightarrow> char \<Rightarrow> int" where
  "Count s c = int (length (filter (\<lambda>x. x = c) s))"

definition detectAreaFromNode :: "token list \<Rightarrow> node \<Rightarrow> panic + area" where
  "detectAreaFromNode toks n =
     (case Walk toks \<lparr>d_start = None, d_end = None\<rparr> (visited n) of
        Inl p \<Rightarrow> Inl p
      | Inr d \<Rightarrow>
          (case (Option.bind (d_start d) (tok toks), d_end d) of
             (Some st, Some e) \<Rightarrow>
               (case tok toks e of
                  Some et \<Rightarrow>
                    Inr \<lparr>StartLine = Line st,
                         EndLine =
                           (if Count (Value et) newline - 1 > 0 \<and> Suc e < length toks
                            then Line et + (Count (Value et) newline - 1)
                            else Line et)\<rparr>
                | None \<Rightarrow> Inl NilDereference)
           | _ \<Rightarrow> Inl NilDereference))"

text \<open>The search for the \<open>-\<close> token: from the node's token back along \<open>Prev\<close>.\<close>

fun find_dash :: "token list \<Rightarrow> nat \<Rightarrow> panic + int" where
  "find_dash toks 0 =
     (case tok toks 0 of
        None \<Rightarrow> Inl NilDereference
      | Some t \<Rightarrow> if Value t = ''-'' then Inr (Line t) else Inl NilDereference)"
| "find_dash toks (Suc j) =
     (case tok toks (Suc j) of
        None \<Rightarrow> Inl NilDereference
      | Some t \<Rightarrow> if Value t = ''-'' then Inr (Line t) else find_dash toks j)"

fun mapping_steps :: "token list \<Rightarrow> (nat \<times> node \<times> node) list \<Rightarrow> area list \<Rightarrow> panic + area list" where
  "mapping_steps toks [] acc = Inr acc"
| "mapping_steps toks ((t, k, v) # vs) acc =
     (case detectAreaFromNode toks (MappingValueNode t k v) of
        Inl p \<Rightarrow> Inl p
      | Inr aa \<Rightarrow> mapping_steps toks vs (acc @ [aa]))"

fun sequence_steps :: "token list \<Rightarrow> node list \<Rightarrow> area list \<Rightarrow> panic + area list" where
  "sequence_steps toks [] acc = Inr acc"
| "sequence_steps toks (v # vs) acc =
     (case detectAreaFromNode toks v of
        Inl p \<Rightarrow> Inl p
      | Inr aa \<Rightarrow>
          (case find_dash toks (GetToken v) of
             Inl p \<Rightarrow> Inl p
           | Inr l \<Rightarrow> sequence_steps toks vs (acc @ [aa\<lparr>StartLine := l\<rparr>])))"

fun sections :: "token list \<Rightarrow> (nat \<times> node \<times> node) list \<Rightarrow> areas \<Rightarrow> panic + areas" where
  "sections toks [] a = Inr a"
| "sections toks ((t, key, v) # rest) a =
     (case key of
        StringNode kt kv \<Rightarrow>
          if kv = ''desc'' then
            (case detectAreaFromNode toks (MappingValueNode t key v) of
               Inl p \<Rightarrow> Inl p
             | Inr ar \<Rightarrow> sections toks rest (a\<lparr>a_Desc := Some ar\<rparr>))
          else if kv = ''vars'' then
            (case detectAreaFromNode toks (MappingValueNode t key v) of
               Inl p \<Rightarrow> Inl p
             | Inr ar \<Rightarrow> sections toks rest (a\<lparr>a_Vars := Some ar\<rparr>))
          else if kv = ''runners'' then
            (case detectAreaFromNode toks (MappingValueNode t key v) of
               Inl p \<Rightarrow> Inl p
             | Inr ar \<Rightarrow> sections toks rest (a\<lparr>a_Runners := Some ar\<rparr>))
          else if kv = ''steps'' then
            (case v of
               MappingNode st vs \<Rightarrow>
                 (case mapping_steps toks vs (a_Steps a) of
                    Inl p \<Rightarrow> Inl p
                  | Inr ss \<Rightarrow> sections toks rest (a\<lparr>a_Steps := ss\<rparr>))
             | SequenceNode st vs \<Rightarrow>
                 (case sequence_steps toks vs (a_Steps a) of
                    Inl p \<Rightarrow> Inl p
                  | Inr ss \<Rightarrow> sections toks rest (a\<lparr>a_Steps := ss\<rparr>))
             | _ \<Rightarrow> sections toks rest a)
          else sections toks rest a
      | _ \<Rightarrow> Inr a)"

definition no_areas :: areas where
  "no_areas = \<lparr>a_Desc = None, a_Runners = None, a_Vars = None, a_Steps = []\<rparr>"

definition detectRunbookAreas :: "('z yaml_env_scheme) \<Rightarrow> string \<Rightarrow> panic + areas" where
  "detectRunbookAreas y inp =
     (let tokens = Tokenize y inp
      in case Parse y tokens of
           Inl err \<Rightarrow> Inr no_areas
         | Inr docs \<Rightarrow>
             (case docs of
                [] \<Rightarrow> Inl IndexOutOfRange
              | body # _ \<Rightarrow>
                  (case body of
                     Some (MappingNode t vs) \<Rightarrow> sections tokens vs no_areas
                   | _ \<Rightarrow> Inr no_areas)))"

subsection \<open>pickStepYAML\<close>

text \<open>\<open>pad_left w s\<close> is \<open>fmt.Sprintf("%wd", i)\<close> for the digits \<open>s\<close> of \<open>i\<close>.\<close>

definition pad_left :: "nat \<Rightarrow> string \<Rightarrow> string" where
  "pad_left w s = replicate (w - length s) CHR '' '' @ s"

fun pick_lines :: "(string \<Rightarrow> string) \<Rightarrow> nat \<Rightarrow> string list \<Rightarrow> int list \<Rightarrow> panic + string list" where
  "pick_lines yl w lines [] = Inr []"
| "pick_lines yl w lines (i # rest) =
     (if 1 \<le> i \<and> i \<le> int (length lines) then
        (case pick_lines yl w lines rest of
           Inl p \<Rightarrow> Inl p
         | Inr picked \<Rightarrow>
             Inr ((yl (pad_left w (Itoa i) @ '' '') @ lines ! nat (i - 1)) # picked))
      else Inl IndexOutOfRange)"

definition pickStepYAML :: "('z yaml_env_scheme) \<Rightarrow> string \<Rightarrow> int \<Rightarrow> panic + (error + string)" where
  "pickStepYAML y inp idx =
     (case ReplaceYAML y inp of
        Inl err \<Rightarrow> Inr (Inl (External err))
      | Inr rep \<Rightarrow>
          (case detectRunbookAreas y rep of
             Inl p \<Rightarrow> Inl p
           | Inr a \<Rightarrow>
               if int (length (a_Steps a)) - 1 < idx then Inr (Inl (StepNotFound idx))
               else if idx < 0 then Inl IndexOutOfRange
               else
                 (let step = a_Steps a ! nat idx;
                      start = StartLine step;
                      endl = EndLine step;
                      lines = split_from [] rep [newline]
                  in if int (length lines) < endl then Inr (Inl (LineNotFound endl))
                     else
                       (case pick_lines (yellow y) (length (Itoa endl)) lines [start..endl] of
                          Inl p \<Rightarrow> Inl p
                        | Inr picked \<Rightarrow> Inr (Inr (Join picked [newline]))))))"

section \<open>Include: running a nested runbook\<close>

text \<open>
  An operator and a runner instance are objects reached through pointers: a pointer is a
  number, the heap maps the pointer of a runner instance to the instance, and the field
  \<open>operator\<close> of a runner is the pointer of the operator that owns it (\<open>r_operator\<close>);
  \<open>r_conn\<close> stands for everything else the instance holds. The fields of \<open>operator\<close>
  and \<open>store\<close> carry the prefixes \<open>o_\<close> and \<open>s_\<close>. \<open>thisT.Helper()\<close> changes no state
  and is left out.
\<close>

record runner =
  r_operator :: nat
  r_conn :: string

type_synonym heap = "nat \<Rightarrow> runner option"

record store =
  s_vars :: strmap
  s_steps :: "strmap list"

record operator =
  o_root :: string
  o_store :: store
  o_httpRunners :: "(string \<times> nat) list"
  o_dbRunners :: "(string \<times> nat) list"
  o_debug :: bool
  o_included :: bool
  o_t :: "nat option"
  o_thisT :: "nat option"

record includeConfig =
  c_path :: string
  c_vars :: strmap

datatype opt =
    Book string
  | Included bool
  | RunnHTTPRunner string nat
  | RunnDBRunner string nat
  | Var string val
  | DebugOpt bool

text \<open>
  Modelled from the spec: \<open>New\<close>, \<open>operator.Run\<close> and \<open>store.toMap\<close> belong to the
  repository but are not in the source file. By the spec a child context has a variable
  store of its own, made from a copy of the parent's values and never shared, and it
  shares the runner instances: so \<open>New\<close> is a function of the options and the heap of
  runner instances that returns the pointer and the object of a new operator or an error,
  and \<open>RunOp\<close> runs an operator on the heap and returns its error, the operator and the
  heap it leaves. Neither has the parent's object in its reach. \<open>filepath_Join\<close> is the
  library's \<open>filepath.Join\<close>.
\<close>

record inc_env =
  New :: "opt list \<Rightarrow> heap \<Rightarrow> (string + (nat \<times> operator)) \<times> heap"
  RunOp :: "nat \<Rightarrow> operator \<Rightarrow> heap \<Rightarrow> string option \<times> operator \<times> heap"
  toMap :: "store \<Rightarrow> strmap"
  filepath_Join :: "string \<Rightarrow> string \<Rightarrow> string"

text \<open>
  Modelled from the spec: \<open>operator.record\<close> is not in the source file; the spec has it
  append the value as a recorded result of the operator.
\<close>

definition record_result :: "operator \<Rightarrow> strmap \<Rightarrow> operator" where
  "record_result o' v = o'\<lparr>o_store := (o_store o')\<lparr>s_steps := s_steps (o_store o') @ [v]\<rparr>\<rparr>"

definition newNestedOperator ::
  "('z inc_env_scheme) \<Rightarrow> operator \<Rightarrow> heap \<Rightarrow> opt list \<Rightarrow> (string + (nat \<times> operator)) \<times> heap" where
  "newNestedOperator ev o' h opts0 =
     (let opts = opts0 @ [Included True]
                 @ map (\<lambda>(k, r). RunnHTTPRunner k r) (o_httpRunners o')
                 @ map (\<lambda>(k, r). RunnDBRunner k r) (o_dbRunners o')
                 @ map (\<lambda>(k, v). Var k v) (s_vars (o_store o'))
                 @ [Var ''parent'' (VMapStrs (s_steps (o_store o'))), DebugOpt (o_debug o')]
      in case New ev opts h of
           (Inl err, h1) \<Rightarrow> (Inl err, h1)
         | (Inr (cp, oo), h1) \<Rightarrow> (Inr (cp, oo\<lparr>o_t := o_thisT o', o_thisT := o_thisT o'\<rparr>), h1))"

text \<open>\<open>r.operator = rnr.operator\<close> for each runner of a map, in the order of the range.\<close>

fun rehome :: "nat \<Rightarrow> (string \<times> nat) list \<Rightarrow> heap \<Rightarrow> panic + heap" where
  "rehome p [] h = Inr h"
| "rehome p ((k, r) # rest) h =
     (case h r of
        None \<Rightarrow> Inl NilDereference
      | Some rn \<Rightarrow> rehome p rest (h(r \<mapsto> rn\<lparr>r_operator := p\<rparr>)))"

definition override_vars :: "operator \<Rightarrow> strmap \<Rightarrow> operator" where
  "override_vars oo vs =
     oo\<lparr>o_store := (o_store oo)\<lparr>s_vars := fold (\<lambda>(k, v) m. AList.update k v m) vs
                                                (s_vars (o_store oo))\<rparr>\<rparr>"

text \<open>
  \<open>Run p o h c\<close>: the include runner of the operator at pointer \<open>p\<close>, whose object is
  \<open>o\<close>, on the heap \<open>h\<close>. It returns the error, the parent's object and the heap.
\<close>

definition Run ::
  "('z inc_env_scheme) \<Rightarrow> nat \<Rightarrow> operator \<Rightarrow> heap \<Rightarrow> includeConfig
   \<Rightarrow> panic + (string option \<times> operator \<times> heap)" where
  "Run ev p o' h c =
     (case newNestedOperator ev o' h [Book (filepath_Join ev (o_root o') (c_path c))] of
        (Inl err, h1) \<Rightarrow> Inr (Some err, o', h1)
      | (Inr (cp, oo), h1) \<Rightarrow>
          (case RunOp ev cp (override_vars oo (c_vars c)) h1 of
             (Some err, oo2, h2) \<Rightarrow> Inr (Some err, o', h2)
           | (None, oo2, h2) \<Rightarrow>
               (let o2 = record_result o' (toMap ev (o_store oo2))
                in case rehome p (o_httpRunners oo2) h2 of
                     Inl pn \<Rightarrow> Inl pn
                   | Inr h3 \<Rightarrow>
                       (case rehome p (o_dbRunners oo2) h3 of
                          Inl pn \<Rightarrow> Inl pn
                        | Inr h4 \<Rightarrow> Inr (None, o2, h4)))))"

section \<open>Notions used to state the properties\<close>

text \<open>The book \<open>toBook\<close> builds when nothing fails, with the parsed loop \<open>l\<close>.\<close>

definition compiled :: "(val \<Rightarrow> string) \<Rightarrow> runbook \<Rightarrow> 'l option \<Rightarrow> 'l book" where
  "compiled fmtv rb l =
     \<lparr>bk_desc = Desc rb,
      bk_runners = put_all (map (\<lambda>(k, vv). (k, normalize fmtv vv)) (range_of (Runners rb))),
      bk_vars = put_all (map (\<lambda>(k, vv). (k, normalize fmtv vv)) (Vars rb)),
      bk_rawSteps =
        map (\<lambda>s. put_all (map (\<lambda>(k, vv). (fmtv k, normalize fmtv vv)) s)) (Steps rb),
      bk_debug = Debug rb, bk_intervalStr = Interval rb, bk_ifCond = IfCond rb,
      bk_skipTest = SkipTest rb, bk_force = Force rb, bk_loop = l,
      bk_concurrency = Concurrency rb, bk_useMap = useMap rb, bk_stepKeys = stepKeys rb\<rparr>"

subsection \<open>Runner keys by family\<close>

text \<open>
  The words of the specification for the runner-key allocator: a destination belongs to the
  http family, the grpc family or the default family; a family has a key prefix and a
  number of entries in a mapping (only entries whose value is a string count);
  \<open>family_key f n\<close> is the key for a family that has \<open>n\<close> entries so far.
\<close>

datatype family = HttpFamily | GrpcFamily | DefaultFamily

definition family_of :: "string \<Rightarrow> family" where
  "family_of d =
     (if HasPrefix d ''http'' then HttpFamily
      else if HasPrefix d ''grpc'' then GrpcFamily else DefaultFamily)"

definition family_prefix :: "family \<Rightarrow> string" where
  "family_prefix f =
     (case f of HttpFamily \<Rightarrow> ''req'' | GrpcFamily \<Rightarrow> ''greq'' | DefaultFamily \<Rightarrow> ''db'')"

definition in_family :: "family \<Rightarrow> string \<times> val \<Rightarrow> bool" where
  "in_family f kv = (case snd kv of VString vv \<Rightarrow> family_of vv = f | _ \<Rightarrow> False)"

definition family_count :: "family \<Rightarrow> strmap \<Rightarrow> nat" where
  "family_count f rs = length (filter (in_family f) rs)"

definition family_key :: "family \<Rightarrow> nat \<Rightarrow> string" where
  "family_key f n = (if n = 0 then family_prefix f else family_prefix f @ Itoa (int n + 1))"

definition new_key :: "strmap \<Rightarrow> string \<Rightarrow> string" where
  "new_key rs d = family_key (family_of d) (family_count (family_of d) rs)"

text \<open>
  The runbook that \<open>setRunner\<close> alone builds from a new runbook, one call per
  destination, and the shape of its runners: every entry holds a string under one of the
  first keys of that string's family.
\<close>

definition allocate :: "string list \<Rightarrow> runbook" where
  "allocate ds =
     foldl (\<lambda>rb d. case setRunner rb d of Inl p \<Rightarrow> rb | Inr (k, rb') \<Rightarrow> rb')
       (NewRunbook []) ds"

definition allocator_built :: "strmap \<Rightarrow> bool" where
  "allocator_built rs =
     (\<forall>(k, v) \<in> set rs. \<exists>vv j. v = VString vv \<and> j < family_count (family_of vv) rs \<and>
                                 k = family_key (family_of vv) j)"

text \<open>Reading a decimal number back, to tell two numbers' digits apart.\<close>

definition digit_val :: "char \<Rightarrow> nat" where
  "digit_val c = length (takeWhile (\<lambda>x. x \<noteq> c) ''0123456789'')"

definition undec :: "string \<Rightarrow> nat" where
  "undec s = foldl (\<lambda>a c. 10 * a + digit_val c) 0 s"

text \<open>The text \<open>pickStepYAML\<close> returns for lines \<open>s\<close> to \<open>e\<close> of \<open>lines\<close>.\<close>

definition numbered :: "(string \<Rightarrow> string) \<Rightarrow> string list \<Rightarrow> int \<Rightarrow> int \<Rightarrow> string" where
  "numbered yl lines s e =
     Join (map (\<lambda>i. yl (pad_left (length (Itoa e)) (Itoa i) @ '' '') @ lines ! nat (i - 1)) [s..e])
       [newline]"

text \<open>\<open>book_opt\<close>: the option \<open>Run\<close> hands to \<open>newNestedOperator\<close>.\<close>

definition book_opt :: "('z inc_env_scheme) \<Rightarrow> operator \<Rightarrow> includeConfig \<Rightarrow> opt list" where
  "book_opt ev o' c = [Book (filepath_Join ev (o_root o') (c_path c))]"

subsection \<open>Concrete inputs\<close>

definition doc_value :: val where
  "doc_value =
     VMapSlice
       [(VString ''req'',
         VMapAny [(VInt 1, VInt (- 5)), (VString ''1'', VSlice [VInt 5, VNil])]),
        (VBool True, VMapStrs [[(''a'', VInt 7)], []])]"

definition keyed_runbook :: runbook where
  "keyed_runbook =
     (NewRunbook ''demo'')
       \<lparr>Runners := None, Vars := [(''n'', VInt (- 5))],
        Steps := [[(VString ''req'', VMapSlice [(VInt 1, VInt 5)])]],
        useMap := True, stepKeys := [''first'']\<rparr>"

definition loop_count :: "val \<Rightarrow> string + nat" where
  "loop_count v = (case v of VInt n \<Rightarrow> Inr (unat n) | _ \<Rightarrow> Inl ''invalid loop'')"

definition three_runners :: runbook where
  "three_runners = allocate [''http://a'', ''grpc://x'', ''https://b'', ''http://a'']"

definition three_shuffled :: runbook where
  "three_shuffled = (NewRunbook [])\<lparr>Runners :=
      Some [(''req2'', VString ''https://b''), (''greq'', VString ''grpc://x''),
            (''req'', VString ''http://a'')]\<rparr>"

definition taken_key :: runbook where
  "taken_key = (NewRunbook [])\<lparr>Runners := Some [(''req2'', VString ''http://a'')]\<rparr>"

definition twice_a :: runbook where
  "twice_a = (NewRunbook [])\<lparr>Runners :=
     Some [(''req'', VString ''https://a''), (''req2'', VString ''https://a'')]\<rparr>"

definition twice_b :: runbook where
  "twice_b = (NewRunbook [])\<lparr>Runners :=
     Some [(''req2'', VString ''https://a''), (''req'', VString ''https://a'')]\<rparr>"

text \<open>
  Collaborators for the concrete inputs: a curl parser that knows one command, a grpcurl
  parser that reads \<open>grpcurl ADDR METHOD\<close> and finds no address otherwise, a log
  parser that recognises no format.
\<close>

definition capture_env :: env where
  "capture_env =
     \<lparr>quote = (\<lambda>s. CHR 0x22 # s @ [CHR 0x22]),
      explode = map (\<lambda>c. [c]),
      curl_NewRequest = (\<lambda>ins.
         if ins = [''curl'', ''http://example.com/a'']
         then Inr \<lparr>Method = ''GET'', URL = ''http://example.com/a'', Host = ''example.com'',
                   Header = []\<rparr>
         else Inl ''unsupported curl command''),
      CreateHTTPStepMapSlice = (\<lambda>key req.
         Inr [(VString key, VMapSlice [(VString (URL req), VMapSlice [(VString ''get'', VNil)])])]),
      grpcurl_Parse = (\<lambda>ins.
         case ins of
           [c, a, m] \<Rightarrow> Inr \<lparr>Addr = a, SubCmd = [], GrpcMethod = m, Headers = [], Messages = []\<rparr>
         | _ \<Rightarrow> Inr \<lparr>Addr = [], SubCmd = [], GrpcMethod = [], Headers = [], Messages = []\<rparr>),
      GuessParser = (\<lambda>line. Inl ''failed to guess parser''),
      http_NewRequest = (\<lambda>m u. Inr \<lparr>Method = m, URL = u, Host = [], Header = []\<rparr>),
      Unmarshal_mapped = (\<lambda>b. Inl ''cannot unmarshal'')\<rparr>"

text \<open>
  Two runbook texts with the tokens and the tree the YAML library gives for them: one
  whose steps are a flow sequence, one whose steps are a block sequence of two steps. The
  sample interpolation rejects the text \<open>${\<close> and returns any other text as it is.
\<close>

definition flow_text :: string where
  "flow_text = ''steps: [a]'' @ [newline] @ ''desc: x''"

definition flow_tokens :: "token list" where
  "flow_tokens =
     [\<lparr>Value = ''steps'', Line = 1, Column = 1\<rparr>, \<lparr>Value = '':'', Line = 1, Column = 6\<rparr>,
      \<lparr>Value = ''['', Line = 1, Column = 8\<rparr>, \<lparr>Value = ''a'', Line = 1, Column = 9\<rparr>,
      \<lparr>Value = '']'', Line = 1, Column = 10\<rparr>, \<lparr>Value = ''desc'', Line = 2, Column = 1\<rparr>,
      \<lparr>Value = '':'', Line = 2, Column = 5\<rparr>, \<lparr>Value = ''x'', Line = 2, Column = 7\<rparr>]"

definition flow_doc :: node where
  "flow_doc =
     MappingNode 1
       [(1, StringNode 0 ''steps'', SequenceNode 2 [StringNode 3 ''a'']),
        (6, StringNode 5 ''desc'', StringNode 7 ''x'')]"

definition block_text :: string where
  "block_text =
     ''desc: x'' @ [newline] @ ''steps:'' @ [newline] @
     ''  - exec:'' @ [newline] @ ''      command: ls'' @ [newline] @
     ''  - exec:'' @ [newline] @ ''      command: pwd''"

definition block_tokens :: "token list" where
  "block_tokens =
     [\<lparr>Value = ''desc'', Line = 1, Column = 1\<rparr>, \<lparr>Value = '':'', Line = 1, Column = 5\<rparr>,
      \<lparr>Value = ''x'', Line = 1, Column = 7\<rparr>, \<lparr>Value = ''steps'', Line = 2, Column = 1\<rparr>,
      \<lparr>Value = '':'', Line = 2, Column = 6\<rparr>, \<lparr>Value = ''-'', Line = 3, Column = 3\<rparr>,
      \<lparr>Value = ''exec'', Line = 3, Column = 5\<rparr>, \<lparr>Value = '':'', Line = 3, Column = 9\<rparr>,
      \<lparr>Value = ''command'', Line = 4, Column = 7\<rparr>, \<lparr>Value = '':'', Line = 4, Column = 14\<rparr>,
      \<lparr>Value = ''ls'', Line = 4, Column = 16\<rparr>, \<lparr>Value = ''-'', Line = 5, Column = 3\<rparr>,
      \<lparr>Value = ''exec'', Line = 5, Column = 5\<rparr>, \<lparr>Value = '':'', Line = 5, Column = 9\<rparr>,
      \<lparr>Value = ''command'', Line = 6, Column = 7\<rparr>, \<lparr>Value = '':'', Line = 6, Column = 14\<rparr>,
      \<lparr>Value = ''pwd'', Line = 6, Column = 16\<rparr>]"

definition block_doc :: node where
  "block_doc =
     MappingNode 1
       [(1, StringNode 0 ''desc'', StringNode 2 ''x''),
        (4, StringNode 3 ''steps'',
         SequenceNode 5
           [MappingValueNode 7 (StringNode 6 ''exec'')
              (MappingValueNode 9 (StringNode 8 ''command'') (StringNode 10 ''ls'')),
            MappingValueNode 13 (StringNode 12 ''exec'')
              (MappingValueNode 15 (StringNode 14 ''command'') (StringNode 16 ''pwd''))])]"

definition sample_yaml :: yaml_env where
  "sample_yaml =
     \<lparr>Tokenize = (\<lambda>s. if s = flow_text then flow_tokens
                       else if s = block_text then block_tokens else []),
      Parse = (\<lambda>ts. if ts = flow_tokens then Inr [Some flow_doc]
                     else if ts = block_tokens then Inr [Some block_doc]
                     else if ts = [] then Inr [] else Inl ''syntax error''),
      ReplaceYAML = (\<lambda>s. if s = ''${'' then Inl ''interpolation failed'' else Inr s),
      yellow = (\<lambda>s. ''<'' @ s @ ''>'')\<rparr>"

text \<open>
  A parent operator at pointer 1 with an http runner (pointer 3) and a db runner
  (pointer 4), and collaborators for it: \<open>New\<close> fails for the book \<open>missing.yml\<close>
  and otherwise makes the operator at pointer 2 from the options, takes over the runner
  instances and makes a runner of the nested book's own at pointer 7 under the key
  \<open>req2\<close>; the run of the child fails when the variable \<open>fail\<close> is true and otherwise
  records one result.
\<close>

definition apply_opt :: "operator \<Rightarrow> opt \<Rightarrow> operator" where
  "apply_opt oo x =
     (case x of
        Book b \<Rightarrow> oo
      | Included b \<Rightarrow> oo\<lparr>o_included := b\<rparr>
      | RunnHTTPRunner k r \<Rightarrow> oo\<lparr>o_httpRunners := AList.update k r (o_httpRunners oo)\<rparr>
      | RunnDBRunner k r \<Rightarrow> oo\<lparr>o_dbRunners := AList.update k r (o_dbRunners oo)\<rparr>
      | Var k v \<Rightarrow> oo\<lparr>o_store := (o_store oo)\<lparr>s_vars := AList.update k v (s_vars (o_store oo))\<rparr>\<rparr>
      | DebugOpt b \<Rightarrow> oo\<lparr>o_debug := b\<rparr>)"

definition nested_book :: operator where
  "nested_book =
     \<lparr>o_root = ''books'', o_store = \<lparr>s_vars = [], s_steps = []\<rparr>,
      o_httpRunners = [(''req2'', 7)], o_dbRunners = [], o_debug = False, o_included = False,
      o_t = None, o_thisT = None\<rparr>"

definition sample_inc :: inc_env where
  "sample_inc =
     \<lparr>New = (\<lambda>opts h.
         if Book ''books/missing.yml'' \<in> set opts
         then (Inl ''open books/missing.yml: no such file'', h)
         else (Inr (2, foldl apply_opt nested_book opts),
               (\<lambda>r. map_option (\<lambda>rn. rn\<lparr>r_operator := 2\<rparr>) (h r))
                 (7 \<mapsto> \<lparr>r_operator = 2, r_conn = ''https://b''\<rparr>))),
      RunOp = (\<lambda>cp oo h.
         if map_of (s_vars (o_store oo)) ''fail'' = Some (VBool True)
         then (Some ''step failed'', oo, h)
         else (None,
               oo\<lparr>o_store := (o_store oo)\<lparr>s_steps := s_steps (o_store oo) @ [[(''ok'', VBool True)]]\<rparr>\<rparr>,
               h)),
      toMap = (\<lambda>s. [(''steps'', VMapStrs (s_steps s))]),
      filepath_Join = (\<lambda>a b. a @ ''/'' @ b)\<rparr>"

definition parent_op :: operator where
  "parent_op =
     \<lparr>o_root = ''books'', o_store = \<lparr>s_vars = [(''x'', VInt 1)], s_steps = []\<rparr>,
      o_httpRunners = [(''req'', 3)], o_dbRunners = [(''db'', 4)], o_debug = False,
      o_included = False, o_t = None, o_thisT = None\<rparr>"

definition parent_heap :: heap where
  "parent_heap =
     [3 \<mapsto> \<lparr>r_operator = 1, r_conn = ''https://a''\<rparr>,
      4 \<mapsto> \<lparr>r_operator = 1, r_conn = ''sqlite://db''\<rparr>]"

definition include_child :: includeConfig where
  "include_child = \<lparr>c_path = ''child.yml'', c_vars = [(''x'', VInt 2)]\<rparr>"

definition failing_include :: includeConfig where
  "failing_include = \<lparr>c_path = ''child.yml'', c_vars = [(''fail'', VBool True)]\<rparr>"

definition missing_include :: includeConfig where
  "missing_include = \<lparr>c_path = ''missing.yml'', c_vars = []\<rparr>"

section \<open>Properties of normalize\<close>

lemma update_fresh: "k \<notin> fst ` set al \<Longrightarrow> AList.update k v al = al @ [(k, v)]"
  by (induction al) auto

lemma fold_update_distinct:
  "distinct (map fst acc) \<Longrightarrow>
   distinct (map fst (fold (\<lambda>(k, v) res. AList.update k v res) kvs acc))"
  by (induction kvs arbitrary: acc) (auto simp: distinct_update)

lemma put_all_distinct: "distinct (map fst (put_all kvs))"
  by (simp add: put_all_def fold_update_distinct)

lemma fold_update_fresh:
  "distinct (map fst kvs) \<Longrightarrow> fst ` set kvs \<inter> fst ` set acc = {} \<Longrightarrow>
   fold (\<lambda>(k, v) res. AList.update k v res) kvs acc = acc @ kvs"
proof (induction kvs arbitrary: acc)
  case Nil
  then show ?case by simp
next
  case (Cons kv kvs)
  obtain k v where kv: "kv = (k, v)" by (cases kv)
  have fresh: "k \<notin> fst ` set acc" using Cons.prems(2) kv by auto
  have "fst ` set kvs \<inter> fst ` set (acc @ [(k, v)]) = {}"
    using Cons.prems kv by force
  moreover have "distinct (map fst kvs)" using Cons.prems(1) by simp
  ultimately show ?case using Cons.IH [of "acc @ [(k, v)]"] fresh kv
    by (simp add: update_fresh)
qed

lemma put_all_id: "distinct (map fst kvs) \<Longrightarrow> put_all kvs = kvs"
  by (simp add: put_all_def fold_update_fresh)

lemma set_fold_update:
  "set (fold (\<lambda>(k, v) res. AList.update k v res) kvs acc) \<subseteq> set kvs \<union> set acc"
proof (induction kvs arbitrary: acc)
  case Nil
  then show ?case by simp
next
  case (Cons kv kvs)
  obtain k v where kv: "kv = (k, v)" by (cases kv)
  have "set (AList.update k v acc) \<subseteq> insert (k, v) (set acc)"
    by (induction acc) auto
  then show ?case using Cons.IH [of "AList.update k v acc"] kv by auto
qed

lemma set_put_all: "set (put_all kvs) \<subseteq> set kvs"
  using set_fold_update [of kvs "[]"] by (simp add: put_all_def)

lemma as_maps_all: "as_maps (map (\<lambda>m. (g m, VMapStr (h m))) ms) = Inr (map h ms)"
  by (induction ms) auto

text \<open>
  Normalizing the entries of a map that was itself built from normalized values changes
  nothing: the keys are already distinct strings, the values already normal.
\<close>

lemma put_all_map_idem:
  assumes "\<And>k v. (k, v) \<in> set kvs \<Longrightarrow> n (n v) = n v"
  shows "put_all (map (\<lambda>(k, v). (k, n v)) (put_all (map (\<lambda>(k, v). (key k, n v)) kvs)))
       = put_all (map (\<lambda>(k, v). (key k, n v)) kvs)"
proof -
  let ?r = "put_all (map (\<lambda>(k, v). (key k, n v)) kvs)"
  have "\<And>kv. kv \<in> set ?r \<Longrightarrow> (\<lambda>(k, v). (k, n v)) kv = kv"
  proof -
    fix kv assume "kv \<in> set ?r"
    then have "kv \<in> set (map (\<lambda>(k, v). (key k, n v)) kvs)" using set_put_all by blast
    then obtain k v where "(k, v) \<in> set kvs" "kv = (key k, n v)" by auto
    then show "(\<lambda>(k, v). (k, n v)) kv = kv" using assms by simp
  qed
  then have "map (\<lambda>(k, v). (k, n v)) ?r = ?r" by (simp add: map_idI)
  then show ?thesis by (simp add: put_all_id put_all_distinct)
qed

text \<open>
  The error branch of the \<open>[]map[string]any\<close> case is dead: a \<open>map[string]any\<close>
  always normalizes to a \<open>map[string]any\<close>.
\<close>

lemma normalize_VMapStrs:
  "normalize fmtv (VMapStrs ms) =
   VMapStrs (map (\<lambda>m. put_all (map (\<lambda>(k, vv). (k, normalize fmtv vv)) m)) ms)"
  using as_maps_all [of VMapStr "\<lambda>m. put_all (map (\<lambda>(k, vv). (k, normalize fmtv vv)) m)" ms]
  by simp

text \<open>
  C4. \<open>normalize\<close> is a total function of the model (its termination is proved above),
  and applying it to its own result gives that result again, for every value and every
  formatting of keys.
\<close>

theorem normalize_idempotent: "normalize fmtv (normalize fmtv x) = normalize fmtv x"
proof (induction fmtv x rule: normalize.induct)
  case (1 fmtv vs)
  then show ?case by simp
next
  case (2 fmtv kvs)
  then show ?case using put_all_map_idem [of kvs "normalize fmtv" fmtv] by simp
next
  case (3 fmtv kvs)
  then show ?case using put_all_map_idem [of kvs "normalize fmtv" "\<lambda>k. k"] by simp
next
  case (4 fmtv ms)
  let ?N = "\<lambda>m. put_all (map (\<lambda>(k, vv). (k, normalize fmtv vv)) m)"
  have "\<And>m. m \<in> set ms \<Longrightarrow> ?N (?N m) = ?N m" using 4 by simp
  then have "map ?N (map ?N ms) = map ?N ms" by simp
  then show ?case by (simp only: normalize_VMapStrs)
next
  case (5 fmtv items)
  then show ?case using put_all_map_idem [of items "normalize fmtv" fmtv] by simp
qed simp_all


theorem normalize_idempotent_witness:
  "normalize fmt_key doc_value =
     VMapStr [(''req'', VMapStr [(''1'', VSlice [VUint64 5, VNil])]),
              (''true'', VMapStrs [[(''a'', VUint64 7)], []])] \<and>
   normalize fmt_key (normalize fmt_key doc_value) = normalize fmt_key doc_value"
proof -
  have "normalize fmt_key doc_value =
     VMapStr [(''req'', VMapStr [(''1'', VSlice [VUint64 5, VNil])]),
              (''true'', VMapStrs [[(''a'', VUint64 7)], []])]"
    by code_simp
  then show ?thesis using normalize_idempotent [of fmt_key doc_value] by simp
qed

text \<open>
  The order in which \<open>normalize\<close> visits a map whose keys are distinct does not change
  the mapping it builds.
\<close>

lemma normalize_visit_order:
  assumes "distinct (map fst kvs)" and "mset kvs' = mset kvs"
  shows "\<exists>r r'. normalize fmtv (VMapStr kvs) = VMapStr r \<and>
                 normalize fmtv (VMapStr kvs') = VMapStr r' \<and> map_of r' = map_of r"
proof -
  let ?g = "\<lambda>(k, vv). (k, normalize fmtv vv)"
  have fst_g: "map fst (map ?g xs) = map fst xs" for xs :: strmap
    by (induction xs) auto
  have "mset (map fst kvs') = mset (map fst kvs)"
    using assms(2) by (metis mset_map)
  then have d': "distinct (map fst kvs')"
    using assms(1) by (metis mset_eq_imp_distinct_iff)
  have r: "put_all (map ?g kvs) = map ?g kvs"
    by (rule put_all_id) (simp only: fst_g assms(1))
  have r': "put_all (map ?g kvs') = map ?g kvs'"
    by (rule put_all_id) (simp only: fst_g d')
  have "set (map ?g kvs') = set (map ?g kvs)"
    using assms(2) by (metis mset_eq_setD mset_map)
  then have "map_of (map ?g kvs') = map_of (map ?g kvs)"
    by (intro map_of_inject_set [THEN iffD2]) (simp_all only: fst_g assms(1) d')
  then show ?thesis using r r' by simp
qed

text \<open>
  C5. On a Go \<open>int\<close>, \<open>normalize\<close> looks at the sign: a negative value comes back as an
  \<open>int64\<close>, any other as a \<open>uint64\<close> that reads as the same number; so \<open>-5\<close> gives
  \<open>int64(-5)\<close> and \<open>5\<close> gives \<open>uint64(5)\<close>.
\<close>

theorem normalize_int_sign_aware:
  "(sint v < 0 \<longrightarrow> normalize fmtv (VInt v) = VInt64 v) \<and>
   (0 \<le> sint v \<longrightarrow> normalize fmtv (VInt v) = VUint64 v \<and> uint v = sint v) \<and>
   normalize fmtv (VInt (- 5)) = VInt64 (- 5) \<and>
   normalize fmtv (VInt 5) = VUint64 5"
proof -
  have "uint v = sint v" if "0 \<le> sint v"
  proof -
    have "sint v < 2 ^ 63" using sint_less [of v] by simp
    then have "sint v < 2 ^ 64" by simp
    then show ?thesis using that by (simp add: uint_sint take_bit_int_eq_self)
  qed
  then show ?thesis by (simp add: word_sless_alt)
qed

theorem normalize_int_sign_aware_witness:
  "sint (- 3 :: 64 word) < 0 \<and> normalize fmt_key (VInt (- 3)) = VInt64 (- 3) \<and>
   0 \<le> sint (7 :: 64 word) \<and> normalize fmt_key (VInt 7) = VUint64 7 \<and>
   uint (7 :: 64 word) = 7"
  using normalize_int_sign_aware [of "- 3" fmt_key] normalize_int_sign_aware [of 7 fmt_key]
  by simp

section \<open>Properties of toBook\<close>

lemma normalize_steps_all:
  "normalize_steps fmtv ss =
   Inr (map (\<lambda>s. put_all (map (\<lambda>(k, vv). (fmtv k, normalize fmtv vv)) s)) ss)"
  by (induction ss) auto

lemma toBook_eq:
  "toBook fmtv newLoop rb =
     (if Loop rb = VNil then Inr (compiled fmtv rb None)
      else case newLoop (Loop rb) of
             Inl e \<Rightarrow> Inl (External e)
           | Inr l \<Rightarrow> Inr (compiled fmtv rb (Some l)))"
  by (simp add: toBook_def normalize_steps_all compiled_def split: sum.splits)

text \<open>
  C10. \<open>toBook\<close> never returns one of its three "failed to normalize" errors. The only
  error it returns is the one \<open>newLoop\<close> reports for a loop field that is not nil; when
  the loop field is nil or \<open>newLoop\<close> parses it, \<open>toBook\<close> returns a book.
\<close>

theorem toBook_fails_only_on_loop:
  "(\<forall>x. toBook fmtv newLoop rb \<noteq> Inl (FailedNormalizeRunners x)) \<and>
   (\<forall>x. toBook fmtv newLoop rb \<noteq> Inl (FailedNormalizeVars x)) \<and>
   (\<forall>x. toBook fmtv newLoop rb \<noteq> Inl (FailedNormalizeStep x)) \<and>
   (\<forall>e. toBook fmtv newLoop rb = Inl e \<longrightarrow>
        Loop rb \<noteq> VNil \<and> (\<exists>m. newLoop (Loop rb) = Inl m \<and> e = External m)) \<and>
   (Loop rb = VNil \<or> (\<exists>l. newLoop (Loop rb) = Inr l) \<longrightarrow>
        (\<exists>bk. toBook fmtv newLoop rb = Inr bk))"
  by (auto simp: toBook_eq split: sum.splits)

theorem toBook_fails_only_on_loop_witness:
  "Loop keyed_runbook = VNil \<and>
   (\<exists>bk. toBook fmt_key loop_count keyed_runbook = Inr bk) \<and>
   loop_count (Loop (keyed_runbook\<lparr>Loop := VInt 3\<rparr>)) = Inr 3 \<and>
   (\<exists>bk. toBook fmt_key loop_count (keyed_runbook\<lparr>Loop := VInt 3\<rparr>) = Inr bk) \<and>
   toBook fmt_key loop_count (keyed_runbook\<lparr>Loop := VString ''x''\<rparr>)
     = Inl (External ''invalid loop'')"
  using toBook_fails_only_on_loop [of fmt_key loop_count keyed_runbook]
    toBook_fails_only_on_loop [of fmt_key loop_count "keyed_runbook\<lparr>Loop := VInt 3\<rparr>"]
    toBook_fails_only_on_loop [of fmt_key loop_count "keyed_runbook\<lparr>Loop := VString ''x''\<rparr>"]
  by (simp add: keyed_runbook_def NewRunbook_def loop_count_def toBook_eq)

section \<open>Properties of setRunner\<close>

lemma scanRunners_absent:
  "VString d \<notin> snd ` set rs \<Longrightarrow>
   scanRunners d rs hc gc dc =
     Inr (hc + int (family_count HttpFamily rs), gc + int (family_count GrpcFamily rs),
          dc + int (family_count DefaultFamily rs))"
proof (induction rs arbitrary: hc gc dc)
  case Nil
  then show ?case by (simp add: family_count_def)
next
  case (Cons kv rs)
  obtain k v where kv: "kv = (k, v)" by (cases kv)
  have IH: "\<And>hc gc dc. scanRunners d rs hc gc dc =
     Inr (hc + int (family_count HttpFamily rs), gc + int (family_count GrpcFamily rs),
          dc + int (family_count DefaultFamily rs))"
    using Cons by simp
  have nd: "v \<noteq> VString d" using Cons.prems kv by auto
  show ?case
  proof (cases v)
    case (VString vv)
    then have "vv \<noteq> d" using nd by simp
    then show ?thesis using kv VString IH
      by (simp add: family_count_def in_family_def family_of_def)
  qed (use kv IH in \<open>simp_all add: family_count_def in_family_def\<close>)
qed

lemma scanRunners_present:
  "VString d \<in> snd ` set rs \<Longrightarrow>
   \<exists>k. scanRunners d rs hc gc dc = Inl k \<and> (k, VString d) \<in> set rs"
proof (induction rs arbitrary: hc gc dc)
  case Nil
  then show ?case by simp
next
  case (Cons kv rs)
  obtain k v where kv: "kv = (k, v)" by (cases kv)
  show ?case
  proof (cases "v = VString d")
    case True
    then show ?thesis using kv by simp
  next
    case False
    then have "VString d \<in> snd ` set rs" using Cons.prems kv by auto
    then have IH: "\<And>hc gc dc. \<exists>k. scanRunners d rs hc gc dc = Inl k \<and> (k, VString d) \<in> set rs"
      using Cons.IH by blast
    show ?thesis
    proof (cases v)
      case (VString vv)
      then have "vv \<noteq> d" using False by simp
      then show ?thesis using kv VString IH [of "hc + 1" gc dc] IH [of hc "gc + 1" dc] IH [of hc gc "dc + 1"]
        by auto 
    qed (use kv IH [of hc gc dc] in auto)
  qed
qed


lemma scanRunners_first:
  "VString d \<notin> snd ` set pre \<Longrightarrow>
   scanRunners d (pre @ (k, VString d) # post) hc gc dc = Inl k"
proof (induction pre arbitrary: hc gc dc)
  case Nil
  then show ?case by simp
next
  case (Cons kv pre)
  obtain k' v where kv: "kv = (k', v)" by (cases kv)
  have nd: "v \<noteq> VString d" and rest: "VString d \<notin> snd ` set pre"
    using Cons.prems kv by auto
  have IH: "\<And>hc gc dc. scanRunners d (pre @ (k, VString d) # post) hc gc dc = Inl k"
    using Cons.IH [OF rest] .
  show ?case
  proof (cases v)
    case (VString vv)
    then have "vv \<noteq> d" using nd by simp
    then show ?thesis using kv VString IH by simp
  qed (use kv IH in simp_all)
qed

lemma setRunner_absent:
  assumes "Runners rb = Some rs" and "VString d \<notin> snd ` set rs"
  shows "setRunner rb d =
     Inr (family_key (family_of d) (family_count (family_of d) rs),
          rb\<lparr>Runners := Some (AList.update
             (family_key (family_of d) (family_count (family_of d) rs)) (VString d) rs)\<rparr>)"
  using assms
  by (simp add: setRunner_def range_of_def scanRunners_absent family_key_def family_of_def
      family_prefix_def Let_def)

lemma digit_val_digit_char: "digit_val (digit_char d) = d mod 10"
proof -
  have "\<forall>m \<in> set [0..<10]. digit_val (digit_char m) = m"
    by code_simp
  then have "digit_val (digit_char (d mod 10)) = d mod 10" by simp
  then show ?thesis by (simp add: digit_char_def)
qed

lemma undec_dec_nat: "undec (dec_nat n) = n"
proof (induction n rule: dec_nat.induct)
  case (1 n)
  show ?case
  proof (cases "n < 10")
    case True
    then show ?thesis
      by (subst dec_nat.simps) (simp add: undec_def digit_val_digit_char)
  next
    case False
    then have "undec (dec_nat (n div 10)) = n div 10" using 1 by simp
    then show ?thesis using False
      by (subst dec_nat.simps) (simp add: undec_def digit_val_digit_char)
  qed
qed

lemma dec_nat_inj: "dec_nat m = dec_nat n \<Longrightarrow> m = n"
  by (metis undec_dec_nat)

lemma dec_nat_nonempty: "dec_nat n \<noteq> []"
  by (subst dec_nat.simps) simp

lemma family_key_inj: "family_key f j = family_key g n \<Longrightarrow> f = g \<and> j = n"
proof -
  assume eq: "family_key f j = family_key g n"
  have hd: "\<And>f j. hd (family_key f j) = hd (family_prefix f)"
    by (simp add: family_key_def family_prefix_def split: family.splits)
  have "hd (family_prefix f) = hd (family_prefix g)" using eq hd by metis
  then have fg: "f = g" by (cases f; cases g) (simp_all add: family_prefix_def)
  have "j = n"
  proof (cases "j = 0")
    case True
    then show ?thesis using eq fg dec_nat_nonempty
      by (auto simp: family_key_def Itoa_def split: if_splits)
  next
    case False
    then show ?thesis using eq fg dec_nat_nonempty dec_nat_inj [of "nat (int j + 1)" "nat (int n + 1)"]
      by (auto simp: family_key_def Itoa_def split: if_splits)
  qed
  then show ?thesis using fg by simp
qed

lemma allocator_built_fresh:
  assumes "allocator_built rs"
  shows "family_key f (family_count f rs) \<notin> fst ` set rs"
proof
  assume "family_key f (family_count f rs) \<in> fst ` set rs"
  then obtain v where "(family_key f (family_count f rs), v) \<in> set rs" by auto
  then obtain vv j where "j < family_count (family_of vv) rs"
      "family_key f (family_count f rs) = family_key (family_of vv) j"
    using assms by (auto simp: allocator_built_def)
  then show False using family_key_inj by blast
qed

lemma family_count_append:
  "family_count g (rs @ [(k, VString d)]) = family_count g rs + (if family_of d = g then 1 else 0)"
  by (simp add: family_count_def in_family_def)

lemma allocator_built_step:
  assumes "allocator_built rs" and "Runners rb = Some rs" and "setRunner rb d = Inr (k, rb')"
  shows "\<exists>rs'. Runners rb' = Some rs' \<and> allocator_built rs'"
proof (cases "VString d \<in> snd ` set rs")
  case True
  then obtain k' where "setRunner rb d = Inr (k', rb)"
    using scanRunners_present [of d rs 0 0 0] assms(2) by (auto simp: setRunner_def range_of_def)
  then show ?thesis using assms by simp
next
  case False
  let ?f = "family_of d"
  let ?key = "family_key ?f (family_count ?f rs)"
  have fresh: "?key \<notin> fst ` set rs" using allocator_built_fresh assms(1) by blast
  have rb': "rb' = rb\<lparr>Runners := Some (rs @ [(?key, VString d)])\<rparr>"
    using setRunner_absent [OF assms(2) False] assms(3) fresh by (simp add: update_fresh)
  have "allocator_built (rs @ [(?key, VString d)])"
    unfolding allocator_built_def
  proof (clarify)
    fix a b assume "(a, b) \<in> set (rs @ [(?key, VString d)])"
    then consider "(a, b) \<in> set rs" | "a = ?key" "b = VString d" by auto
    then show "\<exists>vv j. b = VString vv \<and> j < family_count (family_of vv) (rs @ [(?key, VString d)]) \<and>
                     a = family_key (family_of vv) j"
    proof cases
      case 1
      then obtain vv j where "b = VString vv" "j < family_count (family_of vv) rs"
          "a = family_key (family_of vv) j"
        using assms(1) by (auto simp: allocator_built_def)
      then have "b = VString vv \<and> j < family_count (family_of vv) (rs @ [(?key, VString d)]) \<and>
                 a = family_key (family_of vv) j"
        by (simp add: family_count_append)
      then show ?thesis by blast
    next
      case 2
      then have "b = VString d \<and>
                 family_count ?f rs < family_count (family_of d) (rs @ [(?key, VString d)]) \<and>
                 a = family_key (family_of d) (family_count ?f rs)"
        by (simp add: family_count_append)
      then show ?thesis by blast
    qed
  qed
  then show ?thesis using rb' by simp
qed

lemma allocate_built: "\<exists>rs. Runners (allocate ds) = Some rs \<and> allocator_built rs"
proof (induction ds rule: rev_induct)
  case Nil
  then show ?case by (simp add: allocate_def NewRunbook_def allocator_built_def)
next
  case (snoc d ds)
  then obtain rs where rs: "Runners (allocate ds) = Some rs" "allocator_built rs" by blast
  show ?case
  proof (cases "setRunner (allocate ds) d")
    case (Inl p)
    then show ?thesis using rs by (simp add: allocate_def)
  next
    case (Inr r)
    obtain k rb' where "r = (k, rb')" by (cases r)
    then show ?thesis using Inr rs allocator_built_step [of rs "allocate ds" d k rb']
      by (simp add: allocate_def)
  qed
qed


lemma family_count_update_fresh:
  "k \<notin> fst ` set rs \<Longrightarrow>
   family_count g (AList.update k (VString d) rs) =
     family_count g rs + (if family_of d = g then 1 else 0)"
  by (simp add: update_fresh family_count_append)

text \<open>
  C2, as amended. In a runbook whose runners mapping is not nil and holds no entry for the
  destination, \<open>setRunner\<close> returns the key of the destination's family: the bare
  prefix when the family has no entry, otherwise the prefix followed by the number of its
  entries plus one. The destination is stored under that key and every other key keeps its
  value. When the key was not in the mapping, the family has exactly one entry more, the
  other families as many as before, and the mapping one entry more; that is the case in
  every runbook that \<open>setRunner\<close> alone has built.
\<close>

theorem setRunner_allocates:
  assumes "Runners rb = Some rs" and "VString d \<notin> snd ` set rs"
  shows "setRunner rb d = Inr (new_key rs d, rb\<lparr>Runners := Some (AList.update (new_key rs d) (VString d) rs)\<rparr>) \<and>
         map_of (AList.update (new_key rs d) (VString d) rs) (new_key rs d) = Some (VString d) \<and>
         (\<forall>k. k \<noteq> new_key rs d \<longrightarrow>
              map_of (AList.update (new_key rs d) (VString d) rs) k = map_of rs k) \<and>
         (new_key rs d \<notin> fst ` set rs \<longrightarrow>
            family_count (family_of d) (AList.update (new_key rs d) (VString d) rs)
              = family_count (family_of d) rs + 1 \<and>
            (\<forall>g. g \<noteq> family_of d \<longrightarrow>
               family_count g (AList.update (new_key rs d) (VString d) rs) = family_count g rs) \<and>
            length (AList.update (new_key rs d) (VString d) rs) = length rs + 1) \<and>
         ((\<exists>ds. rb = allocate ds) \<longrightarrow> new_key rs d \<notin> fst ` set rs)"
proof -
  have built: "new_key rs d \<notin> fst ` set rs" if ex: "\<exists>ds. rb = allocate ds"
  proof -
    obtain ds where "rb = allocate ds" using ex by blast
    then have "allocator_built rs" using allocate_built [of ds] assms(1) by auto
    then show ?thesis unfolding new_key_def by (rule allocator_built_fresh)
  qed
  show ?thesis
    using setRunner_absent [OF assms] built
    by (auto simp: new_key_def update_conv update_fresh family_count_append)
qed

lemma three_runners_eq:
  "three_runners = (NewRunbook [])\<lparr>Runners :=
      Some [(''req'', VString ''http://a''), (''greq'', VString ''grpc://x''),
            (''req2'', VString ''https://b'')]\<rparr>"
  by code_simp

theorem setRunner_allocates_witness:
  "Runners three_runners =
     Some [(''req'', VString ''http://a''), (''greq'', VString ''grpc://x''),
           (''req2'', VString ''https://b'')] \<and>
   setRunner three_runners ''http://c'' =
     Inr (''req3'', three_runners\<lparr>Runners :=
        Some [(''req'', VString ''http://a''), (''greq'', VString ''grpc://x''),
              (''req2'', VString ''https://b''), (''req3'', VString ''http://c'')]\<rparr>) \<and>
   ''req3'' \<notin> fst ` set [(''req'', VString ''http://a''), (''greq'', VString ''grpc://x''),
           (''req2'', VString ''https://b'')]"
proof -
  let ?rs = "[(''req'', VString ''http://a''), (''greq'', VString ''grpc://x''),
              (''req2'', VString ''https://b'')]"
  have R: "Runners three_runners = Some ?rs" by (simp add: three_runners_eq)
  have A: "VString ''http://c'' \<notin> snd ` set ?rs" by simp
  have K: "new_key ?rs ''http://c'' = ''req3''" by code_simp
  have B: "\<exists>ds. three_runners = allocate ds" unfolding three_runners_def by blast
  show ?thesis using setRunner_allocates [OF R A] R K B by simp
qed

text \<open>
  The claim as stated fails where a key of the mapping already has the name that the
  count gives: the entry under \<open>req2\<close> is overwritten and the http family has as many
  entries as before.
\<close>

theorem setRunner_collision:
  "VString ''http://b'' \<notin> snd ` set (range_of (Runners taken_key)) \<and>
   setRunner taken_key ''http://b'' =
     Inr (''req2'', taken_key\<lparr>Runners := Some [(''req2'', VString ''http://b'')]\<rparr>) \<and>
   ''req2'' \<in> fst ` set (range_of (Runners taken_key)) \<and>
   family_count HttpFamily [(''req2'', VString ''http://b'')]
     = family_count HttpFamily (range_of (Runners taken_key))"
  by code_simp

text \<open>
  C3, as amended. When an entry of the runners mapping holds the destination,
  \<open>setRunner\<close> returns the key of the first such entry in the order in which the
  map is visited (no entry visited before it holds the destination) and the runbook as it
  was. When one entry only holds the destination, the key is the same in whatever order
  the map is visited.
\<close>

theorem setRunner_reuses:
  assumes "(k0, VString d) \<in> set (range_of (Runners rb))"
  shows "(\<exists>k pre post. range_of (Runners rb) = pre @ (k, VString d) # post \<and>
                        VString d \<notin> snd ` set pre \<and> setRunner rb d = Inr (k, rb)) \<and>
         (\<exists>k. setRunner rb d = Inr (k, rb) \<and> (k, VString d) \<in> set (range_of (Runners rb))) \<and>
         ((\<forall>k'. (k', VString d) \<in> set (range_of (Runners rb)) \<longrightarrow> k' = k0) \<longrightarrow>
          (\<forall>rb'. mset (range_of (Runners rb')) = mset (range_of (Runners rb)) \<longrightarrow>
                 setRunner rb' d = Inr (k0, rb')))"
proof -
  have first: "\<exists>k pre post. range_of (Runners r) = pre @ (k, VString d) # post \<and>
                 VString d \<notin> snd ` set pre \<and> setRunner r d = Inr (k, r)"
    if "VString d \<in> snd ` set (range_of (Runners r))" for r
  proof -
    have "\<exists>x \<in> set (range_of (Runners r)). snd x = VString d" using that by force
    then obtain pre x post where sp: "range_of (Runners r) = pre @ x # post"
        "snd x = VString d" "\<forall>y \<in> set pre. snd y \<noteq> VString d"
      using split_list_first_prop [of "range_of (Runners r)" "\<lambda>x. snd x = VString d"] by blast
    obtain k where x: "x = (k, VString d)" using sp(2) by (cases x) auto
    have np: "VString d \<notin> snd ` set pre" using sp(3) by force
    have "setRunner r d = Inr (k, r)"
      using scanRunners_first [OF np, of k post 0 0 0] sp(1) x by (simp add: setRunner_def)
    then show ?thesis using sp(1) x np by blast
  qed
  have found: "\<exists>k. setRunner r d = Inr (k, r) \<and> (k, VString d) \<in> set (range_of (Runners r))"
    if "VString d \<in> snd ` set (range_of (Runners r))" for r
    using first [OF that] by auto
  have here: "VString d \<in> snd ` set (range_of (Runners rb))" using assms by force
  have "setRunner rb' d = Inr (k0, rb')"
    if uniq: "\<forall>k'. (k', VString d) \<in> set (range_of (Runners rb)) \<longrightarrow> k' = k0"
      and same: "mset (range_of (Runners rb')) = mset (range_of (Runners rb))" for rb'
  proof -
    have eq: "set (range_of (Runners rb')) = set (range_of (Runners rb))"
      using same by (rule mset_eq_setD)
    then obtain k where "setRunner rb' d = Inr (k, rb')" "(k, VString d) \<in> set (range_of (Runners rb))"
      using found [of rb'] here by auto
    then show ?thesis using uniq by auto
  qed
  then show ?thesis using first [OF here] found [OF here] by blast
qed

text \<open>
  With two entries for one destination the key depends on the order in which the map is
  visited: the same mapping, visited in two orders, gives two keys.
\<close>

theorem setRunner_order_dependent:
  "mset (range_of (Runners twice_a)) = mset (range_of (Runners twice_b)) \<and>
   setRunner twice_a ''https://a'' = Inr (''req'', twice_a) \<and>
   setRunner twice_b ''https://a'' = Inr (''req2'', twice_b)"
  by (simp add: twice_a_def twice_b_def NewRunbook_def range_of_def setRunner_def)

theorem setRunner_reuses_witness:
  "(''greq'', VString ''grpc://x'') \<in> set (range_of (Runners three_runners)) \<and>
   setRunner three_runners ''grpc://x'' = Inr (''greq'', three_runners) \<and>
   mset (range_of (Runners three_shuffled)) = mset (range_of (Runners three_runners)) \<and>
   setRunner three_shuffled ''grpc://x'' = Inr (''greq'', three_shuffled) \<and>
   range_of (Runners twice_a) = [] @ (''req'', VString ''https://a'') # [(''req2'', VString ''https://a'')] \<and>
   setRunner twice_a ''https://a'' = Inr (''req'', twice_a)"
proof -
  have m: "mset (range_of (Runners three_shuffled)) = mset (range_of (Runners three_runners))"
    by (simp add: three_shuffled_def three_runners_eq range_of_def)
  have u: "\<forall>k'. (k', VString ''grpc://x'') \<in> set (range_of (Runners three_runners)) \<longrightarrow>
                k' = ''greq''"
    by (simp add: three_runners_eq range_of_def)
  have i: "(''greq'', VString ''grpc://x'') \<in> set (range_of (Runners three_runners))"
    by (simp add: three_runners_eq range_of_def)
  have t: "range_of (Runners twice_a) =
             [] @ (''req'', VString ''https://a'') # [(''req2'', VString ''https://a'')]"
    and s: "setRunner twice_a ''https://a'' = Inr (''req'', twice_a)"
    by (simp_all add: twice_a_def NewRunbook_def range_of_def setRunner_def)
  show ?thesis
    using setRunner_reuses [OF i] m u i t s by (auto simp: three_runners_eq)
qed

section \<open>Step keys and steps\<close>

lemma setRunner_keeps_steps:
  "setRunner rb d = Inr (k, rb') \<Longrightarrow>
   Steps rb' = Steps rb \<and> stepKeys rb' = stepKeys rb \<and> useMap rb' = useMap rb"
  by (auto simp: setRunner_def Let_def split: sum.splits option.splits prod.splits)

lemma curlToStep_lengths:
  "curlToStep ev rb ins = Inr (r, rb') \<Longrightarrow>
   stepKeys rb' = stepKeys rb \<and> useMap rb' = useMap rb \<and>
   length (Steps rb') = (if r = None then Suc (length (Steps rb)) else length (Steps rb))"
  by (auto simp: curlToStep_def split: sum.splits list.splits prod.splits
      dest!: setRunner_keeps_steps)

lemma grpcurlToStep_lengths:
  "grpcurlToStep ev rb ins = Inr (r, rb') \<Longrightarrow>
   stepKeys rb' = stepKeys rb \<and> useMap rb' = useMap rb \<and>
   length (Steps rb') = (if r = None then Suc (length (Steps rb)) else length (Steps rb))"
  by (auto simp: grpcurlToStep_def Let_def split: sum.splits list.splits prod.splits if_splits
      dest!: setRunner_keeps_steps)

lemma axsLogToStep_lengths:
  "axsLogToStep ev rb ins = Inr (r, rb') \<Longrightarrow>
   stepKeys rb' = stepKeys rb \<and> useMap rb' = useMap rb \<and>
   length (Steps rb') = (if r = None then Suc (length (Steps rb)) else length (Steps rb))"
  by (auto simp: axsLogToStep_def Let_def split: sum.splits list.splits prod.splits if_splits
      dest!: setRunner_keeps_steps)

lemma cmdToStep_lengths:
  "cmdToStep ev rb ins = Inr (r, rb') \<Longrightarrow>
   r = None \<and> stepKeys rb' = stepKeys rb \<and> useMap rb' = useMap rb \<and> length (Steps rb') = Suc (length (Steps rb))"
  by (auto simp: cmdToStep_def Let_def)

lemma AppendStep_lengths:
  assumes "AppendStep ev rb ins = Inr (r, rb')" and "ins \<noteq> []"
  shows "length (stepKeys rb') = (if useMap rb then Suc (length (stepKeys rb)) else length (stepKeys rb)) \<and>
         useMap rb' = useMap rb \<and>
         length (Steps rb') = (if r = None then Suc (length (Steps rb)) else length (Steps rb))"
proof -
  obtain in0 rest where ins: "ins = in0 # rest" using assms(2) by (cases ins) auto
  define rb1 where "rb1 = (if useMap rb
                      then rb\<lparr>stepKeys := stepKeys rb @ [in0 @ Itoa (int (length (stepKeys rb)))]\<rparr>
                      else rb)"
  have k1: "length (stepKeys rb1) = (if useMap rb then Suc (length (stepKeys rb)) else length (stepKeys rb))"
    and s1: "Steps rb1 = Steps rb" and u1: "useMap rb1 = useMap rb"
    by (simp_all add: rb1_def)
  consider (curl) "HasPrefix in0 ''curl''" "curlToStep ev rb1 ins = Inr (r, rb')"
    | (grpc) "grpcurlToStep ev rb1 ins = Inr (r, rb')"
    | (log) "axsLogToStep ev rb1 ins = Inr (None, rb')" "r = None"
    | (logcmd) e rb2 where "axsLogToStep ev rb1 ins = Inr (Some e, rb2)" "cmdToStep ev rb2 ins = Inr (r, rb')"
    | (cmd) "cmdToStep ev rb1 ins = Inr (r, rb')"
    using assms(1) unfolding AppendStep_def ins rb1_def Let_def
    by (auto split: if_splits sum.splits prod.splits option.splits)
  then show ?thesis
  proof cases
    case curl
    then show ?thesis using curlToStep_lengths [of ev rb1 ins r rb'] k1 s1 u1 by simp
  next
    case grpc
    then show ?thesis using grpcurlToStep_lengths [of ev rb1 ins r rb'] k1 s1 u1 by simp
  next
    case log
    then show ?thesis using axsLogToStep_lengths [of ev rb1 ins None rb'] k1 s1 u1 by simp
  next
    case logcmd
    then show ?thesis
      using axsLogToStep_lengths [of ev rb1 ins "Some e" rb2] cmdToStep_lengths [of ev rb2 ins r rb'] k1 s1 u1
      by simp
  next
    case cmd
    then show ?thesis using cmdToStep_lengths [of ev rb1 ins r rb'] k1 s1 u1 by simp
  qed
qed

text \<open>
  C1 does not hold of the code. In keyed mode \<open>AppendStep\<close> appends the step key
  before it tries the capture, and every capture that fails returns without a step: after
  any call that returns an error for a list of arguments that is not empty, a keyed runbook
  whose keys and steps were equal in number has one key more than steps, the state that
  \<open>MarshalYAML\<close> refuses as an invalid runbook.
\<close>

theorem AppendStep_error_leaves_key:
  assumes "useMap rb" and "length (stepKeys rb) = length (Steps rb)"
    and "AppendStep ev rb ins = Inr (Some e, rb')" and "ins \<noteq> []"
  shows "length (stepKeys rb') = Suc (length (Steps rb')) \<and> useMap rb' \<and>
         MarshalYAML rb' = Inl InvalidRunbook"
  using AppendStep_lengths [OF assms(3, 4)] assms(1, 2) by (simp add: MarshalYAML_def)

theorem AppendStep_error_leaves_key_witness:
  "useMap keyed_runbook \<and> length (stepKeys keyed_runbook) = length (Steps keyed_runbook) \<and>
   AppendStep capture_env keyed_runbook [''grpcurl''] =
     Inr (Some (UnsupportedGrpcurl [''grpcurl'']),
          keyed_runbook\<lparr>stepKeys := [''first'', ''grpcurl1'']\<rparr>) \<and>
   length (stepKeys (keyed_runbook\<lparr>stepKeys := [''first'', ''grpcurl1'']\<rparr>)) = 2 \<and>
   length (Steps (keyed_runbook\<lparr>stepKeys := [''first'', ''grpcurl1'']\<rparr>)) = 1 \<and>
   MarshalYAML (keyed_runbook\<lparr>stepKeys := [''first'', ''grpcurl1'']\<rparr>) = Inl InvalidRunbook"
proof -
  have run: "AppendStep capture_env keyed_runbook [''grpcurl''] =
     Inr (Some (UnsupportedGrpcurl [''grpcurl'']),
          keyed_runbook\<lparr>stepKeys := [''first'', ''grpcurl1'']\<rparr>)"
    by code_simp
  have pre: "useMap keyed_runbook" "length (stepKeys keyed_runbook) = length (Steps keyed_runbook)"
    by (simp_all add: keyed_runbook_def NewRunbook_def)
  have steps: "length (Steps (keyed_runbook\<lparr>stepKeys := [''first'', ''grpcurl1'']\<rparr>)) = 1"
    by (simp add: keyed_runbook_def)
  have bad: "MarshalYAML (keyed_runbook\<lparr>stepKeys := [''first'', ''grpcurl1'']\<rparr>) = Inl InvalidRunbook"
    using AppendStep_error_leaves_key [OF pre run] by simp
  show ?thesis
    using pre run steps bad by simp
qed

text \<open>
  The rest of C1 holds: a call that returns no error, the parse of a keyed document
  (whatever it returns) and \<open>toBook\<close> keep the number of keys equal to the number
  of steps.
\<close>

lemma AppendStep_success_keeps_key_count:
  assumes "useMap rb" and "length (stepKeys rb) = length (Steps rb)"
    and "AppendStep ev rb ins = Inr (None, rb')"
  shows "length (stepKeys rb') = length (Steps rb') \<and> useMap rb'"
proof -
  have "ins \<noteq> []" using assms(3) by (auto simp: AppendStep_def)
  then show ?thesis using AppendStep_lengths [OF assms(3)] assms(1, 2) by simp
qed

lemma mapped_steps_key_count:
  "mapped_steps items keys rb = (r, rb') \<Longrightarrow> length (stepKeys rb) = length (Steps rb) \<Longrightarrow>
   length (stepKeys rb') = length (Steps rb') \<and> useMap rb' = useMap rb"
proof (induction items arbitrary: keys rb)
  case Nil
  then show ?case by simp
next
  case (Cons kv rest)
  obtain k v where kv: "kv = (k, v)" by (cases kv)
  show ?case
  proof (cases "\<exists>ks vs. k = VString ks \<and> v = VMapSlice vs")
    case True
    then obtain ks vs where k: "k = VString ks" and v: "v = VMapSlice vs" by blast
    let ?rb1 = "rb\<lparr>stepKeys := stepKeys rb @ [ks], Steps := Steps rb @ [vs]\<rparr>"
    have len1: "length (stepKeys ?rb1) = length (Steps ?rb1)" using Cons.prems(2) by simp
    show ?thesis
    proof (cases "ks \<in> set keys")
      case True
      then have "rb' = ?rb1" using Cons.prems(1) kv k v by (simp add: Let_def)
      then show ?thesis using len1 by simp
    next
      case False
      then have "mapped_steps rest (ks # keys) ?rb1 = (r, rb')"
        using Cons.prems(1) kv k v by (simp add: Let_def)
      then show ?thesis using Cons.IH [of "ks # keys" ?rb1] len1 by simp
    qed
  next
    case False
    then have "rb' = rb" using Cons.prems(1) kv
      by (cases k; cases v) simp_all
    then show ?thesis using Cons.prems(2) by simp
  qed
qed

lemma parseRunbookMapped_key_count:
  assumes run: "parseRunbookMapped ev b rb = (r, rb')"
    and eq: "length (stepKeys rb) = length (Steps rb)"
  shows "length (stepKeys rb') = length (Steps rb') \<and> (r = None \<longrightarrow> useMap rb')"
proof (cases "Unmarshal_mapped ev b")
  case (Inl e)
  then show ?thesis using run eq by (auto simp: parseRunbookMapped_def)
next
  case (Inr m)
  let ?rb0 = "rb\<lparr>useMap := True, Desc := m_Desc m, Runners := m_Runners m, Vars := m_Vars m,
                Debug := m_Debug m, Interval := m_Interval m, IfCond := m_If m,
                SkipTest := m_SkipTest m, Force := m_Force m\<rparr>"
  have "mapped_steps (m_Steps m) [] ?rb0 = (r, rb')" using run Inr by (simp add: parseRunbookMapped_def)
  then show ?thesis using mapped_steps_key_count [of "m_Steps m" "[]" ?rb0 r rb'] eq by simp
qed

lemma toBook_key_count:
  "toBook fmtv newLoop rb = Inr bk \<Longrightarrow>
   bk_stepKeys bk = stepKeys rb \<and> bk_useMap bk = useMap rb \<and>
   length (bk_rawSteps bk) = length (Steps rb)"
  by (auto simp: toBook_eq compiled_def split: if_splits sum.splits)

section \<open>Properties of the source-position mapper\<close>

lemma find_dash_none:
  "(\<forall>j \<le> i. \<forall>tk. tok toks j = Some tk \<longrightarrow> Value tk \<noteq> ''-'') \<Longrightarrow>
   find_dash toks i = Inl NilDereference"
proof (induction i)
  case 0
  then show ?case by (auto split: option.splits)
next
  case (Suc i)
  have "\<forall>j \<le> i. \<forall>tk. tok toks j = Some tk \<longrightarrow> Value tk \<noteq> ''-''"
    using Suc.prems le_SucI by blast
  then have "find_dash toks i = Inl NilDereference" by (rule Suc.IH)
  then show ?case using Suc.prems by (auto split: option.splits)
qed

lemma sequence_steps_no_dash:
  assumes "\<forall>j \<le> GetToken v. \<forall>tk. tok toks j = Some tk \<longrightarrow> Value tk \<noteq> ''-''"
  shows "\<exists>p. sequence_steps toks (v # vs) acc = Inl p"
  using find_dash_none [OF assms] by (auto split: sum.splits)

text \<open>
  C9 does not hold of the code. \<open>detectRunbookAreas\<close> reads the first document of the
  parsed file without asking whether there is one, and for a step of a sequence it walks
  back along the tokens until it meets a \<open>-\<close>: when the parser returns no document it
  panics on the index, and when \<open>steps\<close> is a sequence whose first element has no \<open>-\<close>
  token at or before its own (a flow sequence \<open>[a]\<close>) it panics, on a nil token at the
  latest.
\<close>

theorem detectRunbookAreas_panics:
  assumes "Parse y (Tokenize y inp) = Inr docs"
  shows "(docs = [] \<longrightarrow> detectRunbookAreas y inp = Inl IndexOutOfRange) \<and>
         (\<forall>t ts kt st v vs sec rest.
            docs = Some (MappingNode t ((ts, StringNode kt ''steps'', SequenceNode st (v # vs)) # sec)) # rest \<and>
            (\<forall>j \<le> GetToken v. \<forall>tk. tok (Tokenize y inp) j = Some tk \<longrightarrow> Value tk \<noteq> ''-'') \<longrightarrow>
            (\<exists>p. detectRunbookAreas y inp = Inl p))"
proof (intro conjI allI impI)
  assume "docs = []"
  then show "detectRunbookAreas y inp = Inl IndexOutOfRange"
    using assms by (simp add: detectRunbookAreas_def)
next
  fix t ts kt st v vs sec rest
  assume h: "docs = Some (MappingNode t ((ts, StringNode kt ''steps'', SequenceNode st (v # vs)) # sec)) # rest \<and>
            (\<forall>j \<le> GetToken v. \<forall>tk. tok (Tokenize y inp) j = Some tk \<longrightarrow> Value tk \<noteq> ''-'')"
  then obtain p where "sequence_steps (Tokenize y inp) (v # vs) (a_Steps no_areas) = Inl p"
    using sequence_steps_no_dash by blast
  then have "sections (Tokenize y inp) ((ts, StringNode kt ''steps'', SequenceNode st (v # vs)) # sec) no_areas = Inl p"
    by simp
  then show "\<exists>p. detectRunbookAreas y inp = Inl p"
    using assms h by (simp add: detectRunbookAreas_def)
qed


theorem detectRunbookAreas_panics_witness:
  "Parse sample_yaml (Tokenize sample_yaml []) = Inr [] \<and>
   detectRunbookAreas sample_yaml [] = Inl IndexOutOfRange \<and>
   Parse sample_yaml (Tokenize sample_yaml flow_text) = Inr [Some flow_doc] \<and>
   detectRunbookAreas sample_yaml flow_text = Inl NilDereference"
proof -
  have p0: "Parse sample_yaml (Tokenize sample_yaml []) = Inr []"
    by (simp add: sample_yaml_def flow_text_def block_text_def flow_tokens_def block_tokens_def)
  have p1: "Parse sample_yaml (Tokenize sample_yaml flow_text) = Inr [Some flow_doc]"
    by (simp add: sample_yaml_def)
  have e1: "detectRunbookAreas sample_yaml flow_text = Inl NilDereference"
    by code_simp
  show ?thesis using detectRunbookAreas_panics [OF p0] p0 p1 e1 by simp
qed

text \<open>
  The silent part of C9 holds: a parse error, a document without a body and a body that is
  not a mapping give the empty areas.
\<close>

lemma detectRunbookAreas_silent:
  "(Parse y (Tokenize y inp) = Inl err \<longrightarrow> detectRunbookAreas y inp = Inr no_areas) \<and>
   (Parse y (Tokenize y inp) = Inr (None # rest) \<longrightarrow> detectRunbookAreas y inp = Inr no_areas) \<and>
   (Parse y (Tokenize y inp) = Inr (Some body # rest) \<and> (\<forall>t vs. body \<noteq> MappingNode t vs) \<longrightarrow>
      detectRunbookAreas y inp = Inr no_areas)"
  by (cases body) (auto simp: detectRunbookAreas_def)

lemma pickStepYAML_panics:
  assumes "ReplaceYAML y inp = Inr rep"
  shows "(\<forall>p. detectRunbookAreas y rep = Inl p \<longrightarrow> pickStepYAML y inp idx = Inl p) \<and>
         (\<forall>a. detectRunbookAreas y rep = Inr a \<and> idx < 0 \<longrightarrow>
              pickStepYAML y inp idx = Inl IndexOutOfRange)"
  using assms by (auto simp: pickStepYAML_def)

lemma length_dec_nat_mono: "m \<le> n \<Longrightarrow> length (dec_nat m) \<le> length (dec_nat n)"
proof (induction n arbitrary: m rule: dec_nat.induct)
  case (1 n)
  show ?case
  proof (cases "m < 10")
    case True
    have "length (dec_nat m) = 1" using True by (subst dec_nat.simps) simp
    moreover have "1 \<le> length (dec_nat n)" by (subst dec_nat.simps) simp
    ultimately show ?thesis by simp
  next
    case False
    then have n: "\<not> n < 10" using 1(2) by simp
    have "m div 10 \<le> n div 10" using 1(2) by (rule div_le_mono)
    then have "length (dec_nat (m div 10)) \<le> length (dec_nat (n div 10))"
      using 1(1) n by simp
    then show ?thesis using False n
      by (subst dec_nat.simps, subst (2) dec_nat.simps) simp
  qed
qed

lemma length_pad_left: "length s \<le> w \<Longrightarrow> length (pad_left w s) = w"
  by (simp add: pad_left_def)

lemma number_width:
  assumes "1 \<le> i" and "i \<le> e"
  shows "length (pad_left (length (Itoa e)) (Itoa i)) = length (Itoa e)"
proof -
  have "length (dec_nat (nat i)) \<le> length (dec_nat (nat e))"
    using assms by (intro length_dec_nat_mono) simp
  then show ?thesis using assms by (simp add: Itoa_def length_pad_left)
qed

lemma pick_lines_ok:
  "\<forall>i \<in> set is. 1 \<le> i \<and> i \<le> int (length lines) \<Longrightarrow>
   pick_lines yl w lines is =
     Inr (map (\<lambda>i. yl (pad_left w (Itoa i) @ '' '') @ lines ! nat (i - 1)) is)"
  by (induction "is") auto

text \<open>
  C8, as amended. When the interpolation fails, \<open>pickStepYAML\<close> returns its error. When
  it succeeds and the areas of the interpolated text are detected, then for an index that
  is not negative: an index past the last step area is \<open>StepNotFound\<close>; an end line
  past the last line of the interpolated text is \<open>LineNotFound\<close>; otherwise, the start
  line being at least 1, the result is the lines from the start line to the end line of
  the interpolated text, joined by newlines, each after its coloured number, padded on the
  left to the width of the end line's number and followed by a space.
\<close>

theorem pickStepYAML_lines:
  assumes "ReplaceYAML y inp = Inr rep" and "detectRunbookAreas y rep = Inr a" and "0 \<le> idx"
  shows "(\<forall>y' err. ReplaceYAML y' inp = Inl err \<longrightarrow>
            pickStepYAML (y' :: yaml_env) inp idx = Inr (Inl (External err))) \<and>
         (int (length (a_Steps a)) \<le> idx \<longrightarrow> pickStepYAML y inp idx = Inr (Inl (StepNotFound idx))) \<and>
         (idx < int (length (a_Steps a)) \<longrightarrow>
            (int (length (split_from [] rep [newline])) < EndLine (a_Steps a ! nat idx) \<longrightarrow>
               pickStepYAML y inp idx = Inr (Inl (LineNotFound (EndLine (a_Steps a ! nat idx))))) \<and>
            (EndLine (a_Steps a ! nat idx) \<le> int (length (split_from [] rep [newline])) \<and>
             1 \<le> StartLine (a_Steps a ! nat idx) \<longrightarrow>
               pickStepYAML y inp idx =
                 Inr (Inr (numbered (yellow y) (split_from [] rep [newline])
                             (StartLine (a_Steps a ! nat idx)) (EndLine (a_Steps a ! nat idx)))) \<and>
               (\<forall>i \<in> {StartLine (a_Steps a ! nat idx) .. EndLine (a_Steps a ! nat idx)}.
                  length (pad_left (length (Itoa (EndLine (a_Steps a ! nat idx)))) (Itoa i))
                    = length (Itoa (EndLine (a_Steps a ! nat idx))))))"
proof -
  let ?st = "a_Steps a ! nat idx"
  let ?lines = "split_from [] rep [newline]"
  have far: "pickStepYAML y inp idx = Inr (Inl (StepNotFound idx))" if "int (length (a_Steps a)) \<le> idx"
    using assms that by (simp add: pickStepYAML_def)
  have short: "pickStepYAML y inp idx = Inr (Inl (LineNotFound (EndLine ?st)))"
    if "idx < int (length (a_Steps a))" "int (length ?lines) < EndLine ?st"
    using assms that by (simp add: pickStepYAML_def Let_def)
  have ok: "pickStepYAML y inp idx = Inr (Inr (numbered (yellow y) ?lines (StartLine ?st) (EndLine ?st)))"
    if "idx < int (length (a_Steps a))" "EndLine ?st \<le> int (length ?lines)" "1 \<le> StartLine ?st"
  proof -
    have "\<forall>i \<in> set [StartLine ?st..EndLine ?st]. 1 \<le> i \<and> i \<le> int (length ?lines)"
      using that by auto
    then show ?thesis
      using assms that pick_lines_ok [of "[StartLine ?st..EndLine ?st]" ?lines "yellow y" "length (Itoa (EndLine ?st))"]
      by (simp add: pickStepYAML_def Let_def numbered_def)
  qed
  have width: "\<forall>i \<in> {StartLine ?st .. EndLine ?st}.
      length (pad_left (length (Itoa (EndLine ?st))) (Itoa i)) = length (Itoa (EndLine ?st))"
    if "1 \<le> StartLine ?st"
    using that number_width by auto
  have err: "\<forall>y' err. ReplaceYAML y' inp = Inl err \<longrightarrow>
            pickStepYAML (y' :: yaml_env) inp idx = Inr (Inl (External err))"
    by (simp add: pickStepYAML_def)
  show ?thesis using far short ok width err by blast
qed

theorem pickStepYAML_lines_witness:
  "ReplaceYAML sample_yaml block_text = Inr block_text \<and>
   detectRunbookAreas sample_yaml block_text =
     Inr \<lparr>a_Desc = Some \<lparr>StartLine = 1, EndLine = 1\<rparr>, a_Runners = None, a_Vars = None,
          a_Steps = [\<lparr>StartLine = 3, EndLine = 4\<rparr>, \<lparr>StartLine = 5, EndLine = 6\<rparr>]\<rparr> \<and>
   pickStepYAML sample_yaml block_text 1 =
     Inr (Inr (''<5 >  - exec:'' @ [newline] @ ''<6 >      command: pwd'')) \<and>
   pickStepYAML sample_yaml block_text 2 = Inr (Inl (StepNotFound 2))"
proof -
  let ?a = "\<lparr>a_Desc = Some \<lparr>StartLine = 1, EndLine = 1\<rparr>, a_Runners = None, a_Vars = None,
          a_Steps = [\<lparr>StartLine = 3, EndLine = 4\<rparr>, \<lparr>StartLine = 5, EndLine = 6\<rparr>]\<rparr>"
  have r: "ReplaceYAML sample_yaml block_text = Inr block_text"
    by (simp add: sample_yaml_def block_text_def)
  have d: "detectRunbookAreas sample_yaml block_text = Inr ?a"
    by code_simp
  have n: "numbered (yellow sample_yaml) (split_from [] block_text [newline]) 5 6 =
             ''<5 >  - exec:'' @ [newline] @ ''<6 >      command: pwd''"
    by code_simp
  have l: "int (length (split_from [] block_text [newline])) = 6"
    by code_simp
  show ?thesis
    using pickStepYAML_lines [OF r d, of 1] pickStepYAML_lines [OF r d, of 2] r d n l
    by simp
qed

text \<open>
  The claim as stated fails where the interpolation reports an error (the result is that
  error, whatever the index), and for a negative index, which the range check lets
  through to the indexing of the step areas.
\<close>

theorem pickStepYAML_other_outcomes:
  "pickStepYAML sample_yaml ''${'' 0 = Inr (Inl (External ''interpolation failed'')) \<and>
   pickStepYAML sample_yaml block_text (- 1) = Inl IndexOutOfRange"
proof -
  have r: "ReplaceYAML sample_yaml block_text = Inr block_text"
    by (simp add: sample_yaml_def block_text_def)
  have d: "detectRunbookAreas sample_yaml block_text =
     Inr \<lparr>a_Desc = Some \<lparr>StartLine = 1, EndLine = 1\<rparr>, a_Runners = None, a_Vars = None,
          a_Steps = [\<lparr>StartLine = 3, EndLine = 4\<rparr>, \<lparr>StartLine = 5, EndLine = 6\<rparr>]\<rparr>"
    by code_simp
  have "pickStepYAML sample_yaml ''${'' 0 = Inr (Inl (External ''interpolation failed''))"
    by (simp add: pickStepYAML_def sample_yaml_def)
  then show ?thesis using pickStepYAML_panics [OF r, of "- 1"] d by auto
qed

section \<open>Properties of the include runner\<close>

lemma rehome_effect:
  "rehome p rs h = Inr h' \<Longrightarrow>
   (\<forall>r \<in> snd ` set rs. \<exists>rn. h r = Some rn \<and> h' r = Some (rn\<lparr>r_operator := p\<rparr>)) \<and>
   (\<forall>r. r \<notin> snd ` set rs \<longrightarrow> h' r = h r)"
proof (induction rs arbitrary: h)
  case Nil
  then show ?case by simp
next
  case (Cons kr rs)
  obtain k r where kr: "kr = (k, r)" by (cases kr)
  obtain rn where rn: "h r = Some rn" and rest: "rehome p rs (h(r \<mapsto> rn\<lparr>r_operator := p\<rparr>)) = Inr h'"
    using Cons.prems kr by (auto split: option.splits)
  let ?h1 = "h(r \<mapsto> rn\<lparr>r_operator := p\<rparr>)"
  have IH: "(\<forall>x \<in> snd ` set rs. \<exists>rn1. ?h1 x = Some rn1 \<and> h' x = Some (rn1\<lparr>r_operator := p\<rparr>)) \<and>
            (\<forall>x. x \<notin> snd ` set rs \<longrightarrow> h' x = ?h1 x)"
    using Cons.IH [OF rest] .
  have "\<exists>rn0. h x = Some rn0 \<and> h' x = Some (rn0\<lparr>r_operator := p\<rparr>)" if "x \<in> snd ` set (kr # rs)" for x
  proof (cases "x \<in> snd ` set rs")
    case True
    then obtain rn1 where a: "?h1 x = Some rn1" "h' x = Some (rn1\<lparr>r_operator := p\<rparr>)" using IH by blast
    show ?thesis
    proof (cases "x = r")
      case True
      then show ?thesis using a rn by auto
    next
      case False
      then show ?thesis using a by auto
    qed
  next
    case False
    then have "x = r" using that kr by auto
    then show ?thesis using False IH rn by auto
  qed
  moreover have "h' x = h x" if "x \<notin> snd ` set (kr # rs)" for x
    using that IH kr by auto
  ultimately show ?case by blast
qed

text \<open>
  C6. When the nested operator cannot be made, or its run returns an error, \<open>Run\<close>
  returns that error and the parent's object is the one it was: its store holds the same
  variables and the same recorded results.
\<close>

theorem Run_failure_leaves_parent:
  "(\<forall>err h1. newNestedOperator ev o' h (book_opt ev o' c) = (Inl err, h1) \<longrightarrow>
       Run ev p o' h c = Inr (Some err, o', h1)) \<and>
   (\<forall>cp oo h1 err oo2 h2.
       newNestedOperator ev o' h (book_opt ev o' c) = (Inr (cp, oo), h1) \<and>
       RunOp ev cp (override_vars oo (c_vars c)) h1 = (Some err, oo2, h2) \<longrightarrow>
       Run ev p o' h c = Inr (Some err, o', h2)) \<and>
   (\<forall>err o2 h'. Run ev p o' h c = Inr (Some err, o2, h') \<longrightarrow>
       o2 = o' \<and> o_store o2 = o_store o')"
  by (auto simp: Run_def book_opt_def Let_def split: sum.splits prod.splits option.splits)

theorem Run_failure_leaves_parent_witness:
  "map_sum id (\<lambda>(e, o2, h'). (e, o2))
     (Run sample_inc 1 parent_op parent_heap missing_include)
     = Inr (Some ''open books/missing.yml: no such file'', parent_op) \<and>
   map_sum id (\<lambda>(e, o2, h'). (e, o2))
     (Run sample_inc 1 parent_op parent_heap failing_include)
     = Inr (Some ''step failed'', parent_op)"
proof -
  have a: "map_sum id (\<lambda>(e, o2, h'). (e, o2))
     (Run sample_inc 1 parent_op parent_heap missing_include)
     = Inr (Some ''open books/missing.yml: no such file'', parent_op)"
    by code_simp
  have b: "map_sum id (\<lambda>(e, o2, h'). (e, o2))
     (Run sample_inc 1 parent_op parent_heap failing_include)
     = Inr (Some ''step failed'', parent_op)"
    by code_simp
  show ?thesis
    using Run_failure_leaves_parent [of sample_inc parent_op parent_heap failing_include 1] a b
    by simp
qed

text \<open>
  C7, as amended. When \<open>Run\<close> returns no error, the child was made and ran without
  error; the parent's store is the one it had with the snapshot of the child's final
  store appended to its recorded results; every runner instance in the child's http and
  db mappings has the parent as its operator and is otherwise as the child's run left it,
  and no other instance changed; the parent's own runner mappings are as they were, so
  the instances it held are the same under the same keys and no instance made inside the
  child is added to them.
\<close>

theorem Run_success_merges:
  assumes "Run ev p o' h c = Inr (None, o2, h')"
  shows "\<exists>cp oo h1 oo2 h2.
      newNestedOperator ev o' h (book_opt ev o' c) = (Inr (cp, oo), h1) \<and>
      RunOp ev cp (override_vars oo (c_vars c)) h1 = (None, oo2, h2) \<and>
      o_store o2 = (o_store o')\<lparr>s_steps := s_steps (o_store o') @ [toMap ev (o_store oo2)]\<rparr> \<and>
      o_httpRunners o2 = o_httpRunners o' \<and> o_dbRunners o2 = o_dbRunners o' \<and>
      (\<forall>r \<in> snd ` (set (o_httpRunners oo2) \<union> set (o_dbRunners oo2)).
          \<exists>rn. h2 r = Some rn \<and> h' r = Some (rn\<lparr>r_operator := p\<rparr>)) \<and>
      (\<forall>r. r \<notin> snd ` (set (o_httpRunners oo2) \<union> set (o_dbRunners oo2)) \<longrightarrow> h' r = h2 r)"
proof -
  obtain cp oo h1 where new: "newNestedOperator ev o' h (book_opt ev o' c) = (Inr (cp, oo), h1)"
    using assms by (auto simp: Run_def book_opt_def split: sum.splits prod.splits)
  obtain oo2 h2 where run: "RunOp ev cp (override_vars oo (c_vars c)) h1 = (None, oo2, h2)"
    using assms new by (auto simp: Run_def book_opt_def split: sum.splits prod.splits option.splits)
  obtain h3 where r1: "rehome p (o_httpRunners oo2) h2 = Inr h3"
    and r2: "rehome p (o_dbRunners oo2) h3 = Inr h'"
    and o2: "o2 = record_result o' (toMap ev (o_store oo2))"
    using assms new run by (auto simp: Run_def book_opt_def Let_def split: sum.splits)
  note e1 = rehome_effect [OF r1] and e2 = rehome_effect [OF r2]
  have moved: "\<exists>rn. h2 r = Some rn \<and> h' r = Some (rn\<lparr>r_operator := p\<rparr>)"
    if "r \<in> snd ` (set (o_httpRunners oo2) \<union> set (o_dbRunners oo2))" for r
  proof (cases "r \<in> snd ` set (o_httpRunners oo2)")
    case True
    then obtain rn where a: "h2 r = Some rn" "h3 r = Some (rn\<lparr>r_operator := p\<rparr>)" using e1 by blast
    show ?thesis
    proof (cases "r \<in> snd ` set (o_dbRunners oo2)")
      case True
      then show ?thesis using a e2 by fastforce
    next
      case False
      then show ?thesis using a e2 by auto
    qed
  next
    case False
    then have "r \<in> snd ` set (o_dbRunners oo2)" using that by auto
    moreover have "h3 r = h2 r" using False e1 by blast
    ultimately show ?thesis using e2 by fastforce
  qed
  have kept: "h' r = h2 r" if "r \<notin> snd ` (set (o_httpRunners oo2) \<union> set (o_dbRunners oo2))" for r
    using that e1 e2 by (simp add: image_Un)
  show ?thesis using new run o2 moved kept by (auto simp: record_result_def)
qed

theorem Run_success_merges_witness:
  "map_sum id (\<lambda>(e, o2, h'). (e, o_store o2, o_httpRunners o2, o_dbRunners o2,
                                 map (\<lambda>r. map_option r_operator (h' r)) [3, 4, 7]))
     (Run sample_inc 1 parent_op parent_heap include_child)
     = Inr (None,
            \<lparr>s_vars = [(''x'', VInt 1)],
             s_steps = [[(''steps'', VMapStrs [[(''ok'', VBool True)]])]]\<rparr>,
            [(''req'', 3)], [(''db'', 4)], [Some 1, Some 1, Some 1])"
proof -
  obtain o2 h' where run: "Run sample_inc 1 parent_op parent_heap include_child = Inr (None, o2, h')"
    and o2: "o2 = parent_op\<lparr>o_store := \<lparr>s_vars = [(''x'', VInt 1)],
             s_steps = [[(''steps'', VMapStrs [[(''ok'', VBool True)]])]]\<rparr>\<rparr>"
    and h': "map (\<lambda>r. map_option r_operator (h' r)) [3, 4, 7] = [Some 1, Some 1, Some 1]"
  proof -
    have "map_sum id (\<lambda>(e, o2, h'). (e, o2, map (\<lambda>r. map_option r_operator (h' r)) [3, 4, 7]))
            (Run sample_inc 1 parent_op parent_heap include_child)
          = Inr (None, parent_op\<lparr>o_store := \<lparr>s_vars = [(''x'', VInt 1)],
               s_steps = [[(''steps'', VMapStrs [[(''ok'', VBool True)]])]]\<rparr>\<rparr>,
               [Some 1, Some 1, Some 1])"
      by code_simp
    then show ?thesis using that
      by (cases "Run sample_inc 1 parent_op parent_heap include_child") auto
  qed
  show ?thesis
    using Run_success_merges [OF run] run o2 h' by (simp add: parent_op_def)
qed

text \<open>
  The last part of the claim as stated fails: the nested book makes a runner of its own
  under the key \<open>req2\<close>; after the include that instance has the parent as its operator,
  and the parent's mapping has no key \<open>req2\<close>.
\<close>

theorem Run_child_runner_not_in_parent:
  "(case fst (newNestedOperator sample_inc parent_op parent_heap
               (book_opt sample_inc parent_op include_child)) of
      Inl e \<Rightarrow> None
    | Inr (cp, oo) \<Rightarrow> map_of (o_httpRunners oo) ''req2'') = Some 7 \<and>
   map_sum id (\<lambda>(e, o2, h'). (e, map_of (o_httpRunners o2) ''req2'',
                                 map_option r_operator (h' 7)))
     (Run sample_inc 1 parent_op parent_heap include_child)
     = Inr (None, None, Some 1)"
  by code_simp

end
